theory Spec2Isabelle
  imports Complex_Main "HOL-Library.Word"
begin

unbundle bit_operations_syntax

section \<open>AT24CXX EEPROM controller (at24cxx.h, at24cxx.cpp)\<close>

text \<open>
  The driver is embedded with its machine integers: the \<open>uint8_t\<close>, \<open>uint16_t\<close> and
  \<open>uint32_t\<close> fields and locals are words, and every arithmetic expression is computed
  the way C++ does, on the operands promoted to \<open>int\<close>, and converted back to the type
  it is stored in. \<open>int\<close> is taken wider than 16 bits, as on the 32-bit board the
  test program (main.cpp) targets; the catalog constants themselves (\<open>8 << 20\<close>,
  \<open>1 << 28\<close>) need such an \<open>int\<close>. The promoted values of this program stay far
  below \<open>2 ^ 31\<close>, so an unbounded \<open>int\<close> stands for the promoted type.
\<close>

type_synonym u8 = "8 word"
type_synonym u16 = "16 word"
type_synonym u32 = "32 word"

subsection \<open>Constants\<close>

definition AT24CXX_ADDR :: u8 where
  "AT24CXX_ADDR = 0x50"

definition I2C_READ_BUFFER_SIZE :: u8 where
  "I2C_READ_BUFFER_SIZE = 32"

definition EEPROM_WRITE_CYCLE_TIME_MS :: u8 where
  "EEPROM_WRITE_CYCLE_TIME_MS = 5"

text \<open>Chip selection: word size | page size | address bytes | address overflow bits.\<close>

definition AT24C01 :: u32 where
  "AT24C01 = 128 OR push_bit 20 8 OR push_bit 28 1 OR push_bit 30 0"

definition AT24C02 :: u32 where
  "AT24C02 = 256 OR push_bit 20 8 OR push_bit 28 1 OR push_bit 30 0"

definition AT24C04 :: u32 where
  "AT24C04 = 512 OR push_bit 20 16 OR push_bit 28 1 OR push_bit 30 1"

definition AT24C08 :: u32 where
  "AT24C08 = 1024 OR push_bit 20 16 OR push_bit 28 1 OR push_bit 30 2"

definition AT24C16 :: u32 where
  "AT24C16 = 2048 OR push_bit 20 16 OR push_bit 28 1 OR push_bit 30 3"

definition AT24C32 :: u32 where
  "AT24C32 = 4096 OR push_bit 20 32 OR push_bit 28 2 OR push_bit 30 0"

definition AT24C64 :: u32 where
  "AT24C64 = 8192 OR push_bit 20 32 OR push_bit 28 2 OR push_bit 30 0"

definition AT24C128 :: u32 where
  "AT24C128 = 16384 OR push_bit 20 64 OR push_bit 28 2 OR push_bit 30 0"

definition AT24C256 :: u32 where
  "AT24C256 = 32768 OR push_bit 20 64 OR push_bit 28 2 OR push_bit 30 0"

definition AT24C512 :: u32 where
  "AT24C512 = 65536 OR push_bit 20 128 OR push_bit 28 2 OR push_bit 30 0"

definition catalog :: "u32 list" where
  "catalog = [AT24C01, AT24C02, AT24C04, AT24C08, AT24C16,
              AT24C32, AT24C64, AT24C128, AT24C256, AT24C512]"

subsection \<open>The controller object and what it does to the outside\<close>

text \<open>
  The private fields of class \<open>AT24CXX\<close>. \<open>wire\<close> is the \<open>TwoWire*\<close>: \<open>None\<close> is
  \<open>nullptr\<close>, \<open>Some b\<close> points to bus adapter \<open>b\<close>.
\<close>

record AT24CXX =
  chip_addr :: u8
  chip_size :: u32
  page_size :: u8
  addr_bytes :: u8
  addr_ov_bits :: u8
  addr_size :: u8
  mode :: u8
  wp_pin :: u8
  wire :: "nat option"

text \<open>
  Every call the driver makes on its collaborators (Wire, GPIO, delay) is an event; a
  method returns the events it caused, in order. \<open>Transmission a bs stop\<close> is one bus
  write transaction: \<open>beginTransmission(a)\<close>, a \<open>write(b)\<close> for each byte of \<open>bs\<close>, and
  \<open>endTransmission(stop)\<close>.
\<close>

datatype event =
    PinMode u8
  | DigitalWrite u8 bool
  | Transmission u8 "u8 list" bool
  | RequestFrom u8 u8
  | Delay u8

text \<open>
  How a call ends: it returns, it runs into undefined behaviour, or the script of bus
  replies it was given ends while its read loop is still waiting for bytes.
\<close>

datatype fault = DivisionByZero | NullWire | BufferOverrun

datatype 'a outcome = Returned 'a | Faulted fault | Starved

text \<open>Integer division of C++: the quotient is truncated towards zero.\<close>

definition c_div :: "int \<Rightarrow> int \<Rightarrow> int" where
  "c_div a b = sgn a * sgn b * (\<bar>a\<bar> div \<bar>b\<bar>)"

subsection \<open>Constructor and begin\<close>

definition AT24CXX_new :: AT24CXX where
  "AT24CXX_new =
     \<lparr>chip_addr = 0, chip_size = 0, page_size = 0, addr_bytes = 0, addr_ov_bits = 0,
      addr_size = 0, mode = 0, wp_pin = word_of_int (- 1), wire = None\<rparr>"

text \<open>
  \<open>_wp_pin != -1\<close> compares a \<open>uint8_t\<close> with the \<open>int\<close> constant: the field is
  promoted to \<open>int\<close>, a value in 0..255.
\<close>

definition wp_configured :: "AT24CXX \<Rightarrow> bool" where
  "wp_configured c \<longleftrightarrow> uint (wp_pin c) \<noteq> - 1"

definition begin_AT24CXX ::
  "AT24CXX \<Rightarrow> u32 \<Rightarrow> u8 \<Rightarrow> nat \<Rightarrow> u8 \<Rightarrow> AT24CXX \<times> event list" where
  "begin_AT24CXX c chip chip_addr_arg bus wp_pin_arg =
     (let c1 = c\<lparr>chip_addr := AT24CXX_ADDR OR (chip_addr_arg AND 0x07),
                 chip_size := chip AND 0x0001FFFF,
                 page_size := ucast (drop_bit 20 (chip AND 0x0FF00000)),
                 addr_bytes := ucast (drop_bit 28 (chip AND 0x30000000)),
                 addr_ov_bits := ucast (drop_bit 30 (chip AND 0xC0000000)),
                 wire := Some bus,
                 wp_pin := wp_pin_arg\<rparr>;
          evs = (if wp_configured c1
                 then [PinMode (wp_pin c1), DigitalWrite (wp_pin c1) False]
                 else [])
      in (c1\<lparr>mode := 1\<rparr>, evs))"

text \<open>The default argument \<open>wp_pin = -1\<close> of \<open>begin\<close>, converted to \<open>uint8_t\<close>.\<close>

definition default_wp_pin :: u8 where
  "default_wp_pin = word_of_int (- 1)"

subsection \<open>isConnected and the write-protect pin\<close>

text \<open>\<open>status\<close> is what the bus adapter's \<open>endTransmission()\<close> returns.\<close>

definition isConnected :: "u8 \<Rightarrow> AT24CXX \<Rightarrow> bool outcome \<times> event list" where
  "isConnected status c =
     (if mode c \<noteq> 0 then
        (case wire c of
           None \<Rightarrow> (Faulted NullWire, [])
         | Some b \<Rightarrow> (Returned (status = 0), [Transmission (chip_addr c) [] True]))
      else (Returned False, []))"

definition setWriteProtect :: "AT24CXX \<Rightarrow> event list" where
  "setWriteProtect c = (if wp_configured c then [DigitalWrite (wp_pin c) True] else [])"

definition clearWriteProtect :: "AT24CXX \<Rightarrow> event list" where
  "clearWriteProtect c = (if wp_configured c then [DigitalWrite (wp_pin c) False] else [])"

subsection \<open>The write engine\<close>

text \<open>
  The device address of a transaction at \<open>cursor = address + n_sent\<close>, as \<open>writeN\<close> and
  \<open>readN\<close> compute it when \<open>_addr_ov_bits\<close> is not zero.
\<close>

definition ov_addr :: "AT24CXX \<Rightarrow> int \<Rightarrow> u8" where
  "ov_addr c cursor =
     word_of_int ((uint (chip_addr c) AND 0xF8) OR drop_bit 8 (cursor AND 0x0700))"

text \<open>The word-address bytes written after \<open>beginTransmission\<close>.\<close>

definition word_address :: "AT24CXX \<Rightarrow> int \<Rightarrow> u8 list" where
  "word_address c cursor =
     (if addr_bytes c > 1 then [word_of_int (drop_bit 8 cursor)] else []) @ [word_of_int cursor]"

text \<open>
  The inner loop \<open>while ((j++ < page_size) && (n_sent < n)) write(vals[n_sent++])\<close>:
  the bytes written, and \<open>j\<close> and \<open>n_sent\<close> after it. \<open>vals\<close> is the caller's buffer; a
  read past its end is \<open>None\<close>.
\<close>

function write_page ::
  "u8 list \<Rightarrow> u8 \<Rightarrow> u8 \<Rightarrow> u8 \<Rightarrow> u8 \<Rightarrow> (u8 list \<times> u8 \<times> u8) option" where
  "write_page vals psize n j n_sent =
     (if j < psize \<and> n_sent < n then
        (if unat n_sent < length vals then
           (case write_page vals psize n (j + 1) (n_sent + 1) of
              None \<Rightarrow> None
            | Some (bs, j', n_sent') \<Rightarrow> Some (vals ! unat n_sent # bs, j', n_sent'))
         else None)
      else Some ([], j + 1, n_sent))"
  by pat_completeness auto

termination write_page
proof (relation "measure (\<lambda>(vals, psize, n, j, n_sent). unat n - unat n_sent)")
  show "wf (measure (\<lambda>(vals, psize, n, j, n_sent). unat n - unat n_sent))"
    by simp
next
  fix vals :: "u8 list" and psize n j n_sent :: u8
  assume "j < psize \<and> n_sent < n"
  then have lt: "unat n_sent < unat n"
    by (simp add: word_less_nat_alt)
  have "unat n < 256"
    by (rule order_less_le_trans [OF unsigned_less]) simp
  with lt have "unat n_sent + 1 < 256"
    by arith
  then have "unat (n_sent + 1) = Suc (unat n_sent)"
    by (simp add: unat_word_ariths)
  with lt show "((vals, psize, n, j + 1, n_sent + 1), (vals, psize, n, j, n_sent))
      \<in> measure (\<lambda>(vals, psize, n, j, n_sent). unat n - unat n_sent)"
    by simp
qed

text \<open>
  The \<open>for\<close> loop of \<open>writeN\<close> from the state \<open>(i, j, addr, n_sent)\<close>: one transaction
  and one delay for each page, until \<open>i\<close> reaches \<open>pages_req\<close>.
\<close>

function write_loop ::
  "AT24CXX \<Rightarrow> u16 \<Rightarrow> u8 list \<Rightarrow> u8 \<Rightarrow> u8 \<Rightarrow> u8 \<Rightarrow> u8 \<Rightarrow> u8 \<Rightarrow> u8 \<Rightarrow> u8
     \<Rightarrow> bool outcome \<times> event list" where
  "write_loop c address vals n psize pages_req i j addr n_sent =
     (if i < pages_req then
        (let addr1 = (if addr_ov_bits c \<noteq> 0 then ov_addr c (uint address + uint n_sent)
                      else addr)
         in case wire c of
              None \<Rightarrow> (Faulted NullWire, [])
            | Some b \<Rightarrow>
                (case write_page vals psize n j n_sent of
                   None \<Rightarrow> (Faulted BufferOverrun, [])
                 | Some (payload, j1, n_sent1) \<Rightarrow>
                     (case write_loop c address vals n psize pages_req (i + 1) 0 addr1 n_sent1 of
                        (r, evs) \<Rightarrow>
                          (r, Transmission addr1
                                (word_address c (uint address + uint n_sent) @ payload) True
                              # Delay EEPROM_WRITE_CYCLE_TIME_MS # evs))))
      else (Returned True, []))"
  by pat_completeness auto

termination write_loop
proof (relation "measure (\<lambda>(c, address, vals, n, psize, pages_req, i, j, addr, n_sent).
                            unat pages_req - unat i)")
  show "wf (measure (\<lambda>(c :: AT24CXX, address :: u16, vals :: u8 list, n :: u8, psize :: u8,
                        pages_req, i, j :: u8, addr :: u8, n_sent :: u8).
                       unat pages_req - unat i))"
    by simp
next
  fix c :: AT24CXX and address :: u16 and vals :: "u8 list"
    and n psize pages_req i j addr n_sent addr1 n_sent1 :: u8
  assume "i < pages_req"
  then have lt: "unat i < unat pages_req"
    by (simp add: word_less_nat_alt)
  have "unat pages_req < 256"
    by (rule order_less_le_trans [OF unsigned_less]) simp
  with lt have "unat i + 1 < 256"
    by arith
  then have "unat (i + 1) = Suc (unat i)"
    by (simp add: unat_word_ariths)
  with lt show "((c, address, vals, n, psize, pages_req, i + 1, 0, addr1, n_sent1),
       (c, address, vals, n, psize, pages_req, i, j, addr, n_sent))
      \<in> measure (\<lambda>(c, address, vals, n, psize, pages_req, i, j, addr, n_sent).
                    unat pages_req - unat i)"
    by simp
qed

text \<open>
  The effective page size of \<open>writeN\<close>: "AT24C32+ can only write 30 bytes at a time".
\<close>

definition write_page_size :: "AT24CXX \<Rightarrow> u8 \<Rightarrow> u8" where
  "write_page_size c n = (if addr_bytes c > 1 \<and> n > 30 then 16 else page_size c)"

text \<open>The range check of \<open>writeN\<close> and \<open>readN\<close>: \<open>(uint32_t)(address + n) <= _chip_size\<close>.\<close>

definition in_range :: "AT24CXX \<Rightarrow> u16 \<Rightarrow> u8 \<Rightarrow> bool" where
  "in_range c address n \<longleftrightarrow> (word_of_int (uint address + uint n) :: u32) \<le> chip_size c"

definition writeN :: "AT24CXX \<Rightarrow> u16 \<Rightarrow> u8 list \<Rightarrow> u8 \<Rightarrow> bool outcome \<times> event list" where
  "writeN c address vals n =
     (if mode c \<noteq> 0 \<and> in_range c address n then
        (let psize = write_page_size c n
         in if psize = 0 then (Faulted DivisionByZero, [])
            else
              (let j = (word_of_int (uint address mod uint psize) :: u8);
                   pages_req = (word_of_int (c_div (uint n + uint j - 1) (uint psize) + 1) :: u8)
               in write_loop c address vals n psize pages_req 0 j (chip_addr c) 0))
      else (Returned False, []))"

text \<open>The three public \<open>write\<close> overloads.\<close>

definition write_val :: "AT24CXX \<Rightarrow> u16 \<Rightarrow> u8 \<Rightarrow> bool outcome \<times> event list" where
  "write_val c address val = writeN c address [val] 1"

definition write_vals :: "AT24CXX \<Rightarrow> u16 \<Rightarrow> u8 list \<Rightarrow> u8 \<Rightarrow> bool outcome \<times> event list" where
  "write_vals c address vals n = writeN c address vals n"

definition write_str :: "AT24CXX \<Rightarrow> u16 \<Rightarrow> u8 list \<Rightarrow> u8 \<Rightarrow> bool outcome \<times> event list" where
  "write_str c address str n = writeN c address str n"

subsection \<open>The read engine\<close>

text \<open>
  \<open>while (_wire->available()) vals[bytes_read++] = _wire->read()\<close>, on the bytes the bus
  adapter holds after a \<open>requestFrom\<close>. \<open>vals\<close> is the caller's buffer; a store past its
  end is \<open>None\<close>.
\<close>

fun drain :: "u8 list \<Rightarrow> u8 list \<Rightarrow> u8 \<Rightarrow> (u8 list \<times> u8) option" where
  "drain [] vals bytes_read = Some (vals, bytes_read)"
| "drain (b # bs) vals bytes_read =
     (if unat bytes_read < length vals
      then drain bs (vals[unat bytes_read := b]) (bytes_read + 1)
      else None)"

text \<open>
  The loop \<open>while (bytes_read < n)\<close> of \<open>readN\<close>. What a \<open>requestFrom\<close> delivers is up to
  the bus: \<open>replies\<close> is the script of what the successive calls deliver. A bus that
  delivers nothing keeps the loop running for ever; the model follows the loop as far as
  the script goes and is \<open>Starved\<close> when the script ends before the loop does.
\<close>

fun read_loop ::
  "u8 list list \<Rightarrow> u8 \<Rightarrow> u8 \<Rightarrow> u8 list \<Rightarrow> u8 \<Rightarrow> bool outcome \<times> event list \<times> u8 list" where
  "read_loop replies addr n vals bytes_read =
     (if bytes_read < n then
        (let bytes_per_cycle =
               (if uint I2C_READ_BUFFER_SIZE < uint n - uint bytes_read
                then I2C_READ_BUFFER_SIZE
                else word_of_int (uint n - uint bytes_read))
         in case replies of
              [] \<Rightarrow> (Starved, [RequestFrom addr bytes_per_cycle], vals)
            | r # rs \<Rightarrow>
                (case drain r vals bytes_read of
                   None \<Rightarrow> (Faulted BufferOverrun, [RequestFrom addr bytes_per_cycle], vals)
                 | Some (vals1, bytes_read1) \<Rightarrow>
                     (case read_loop rs addr n vals1 bytes_read1 of
                        (res, evs, vals2) \<Rightarrow>
                          (res, RequestFrom addr bytes_per_cycle # evs, vals2))))
      else (Returned True, [], vals))"

definition readN ::
  "u8 list list \<Rightarrow> AT24CXX \<Rightarrow> u16 \<Rightarrow> u8 list \<Rightarrow> u8 \<Rightarrow> bool outcome \<times> event list \<times> u8 list" where
  "readN replies c address vals n =
     (if mode c \<noteq> 0 \<and> in_range c address n then
        (let addr = (if addr_ov_bits c \<noteq> 0 then ov_addr c (uint address + 0) else chip_addr c)
         in case wire c of
              None \<Rightarrow> (Faulted NullWire, [], vals)
            | Some b \<Rightarrow>
                (case read_loop replies addr n vals 0 of
                   (r, evs, vals1) \<Rightarrow>
                     (r, Transmission addr (word_address c (uint address)) False # evs, vals1)))
      else (Returned False, [], vals))"

text \<open>
  The three public \<open>read\<close> overloads. \<open>read(address)\<close> returns its local \<open>byte\<close>, which
  holds \<open>garbage\<close> until \<open>readN\<close> stores into it. \<open>read(address, vals, n)\<close> passes the
  length 1 to \<open>readN\<close>.
\<close>

definition read_val :: "u8 list list \<Rightarrow> AT24CXX \<Rightarrow> u16 \<Rightarrow> u8 \<Rightarrow> u8 outcome \<times> event list" where
  "read_val replies c address garbage =
     (case readN replies c address [garbage] 1 of
        (Returned ok, evs, vals) \<Rightarrow> (Returned (vals ! 0), evs)
      | (Faulted f, evs, vals) \<Rightarrow> (Faulted f, evs)
      | (Starved, evs, vals) \<Rightarrow> (Starved, evs))"

definition read_vals ::
  "u8 list list \<Rightarrow> AT24CXX \<Rightarrow> u16 \<Rightarrow> u8 list \<Rightarrow> u8 \<Rightarrow> bool outcome \<times> event list \<times> u8 list" where
  "read_vals replies c address vals n = readN replies c address vals 1"

definition read_str ::
  "u8 list list \<Rightarrow> AT24CXX \<Rightarrow> u16 \<Rightarrow> u8 list \<Rightarrow> u8 \<Rightarrow> bool outcome \<times> event list \<times> u8 list" where
  "read_str replies c address str n = readN replies c address str n"

subsection \<open>The controllers of the test program\<close>

text \<open>
  \<open>configured chip select\<close> is a controller after its constructor and
  \<open>begin(chip, select, wire)\<close> with the default \<open>wp_pin\<close>; main.cpp sets up three of
  them on \<open>Wire1\<close>.
\<close>

definition configured :: "u32 \<Rightarrow> u8 \<Rightarrow> AT24CXX" where
  "configured chip select = fst (begin_AT24CXX AT24CXX_new chip select 1 default_wp_pin)"

definition eeprom_2k :: AT24CXX where
  "eeprom_2k = configured AT24C02 0x00"

definition eeprom_64k :: AT24CXX where
  "eeprom_64k = configured AT24C64 0x01"

definition eeprom_512k :: AT24CXX where
  "eeprom_512k = configured AT24C512 0x02"

subsection \<open>Reading a trace of events\<close>

text \<open>The bus write transactions of a trace: device address and bytes written.\<close>

fun transmissions :: "event list \<Rightarrow> (u8 \<times> u8 list) list" where
  "transmissions [] = []"
| "transmissions (e # evs) =
     (case e of
        Transmission a bs stop \<Rightarrow> (a, bs) # transmissions evs
      | _ \<Rightarrow> transmissions evs)"

text \<open>Every device address handed to \<open>beginTransmission\<close> or \<open>requestFrom\<close>.\<close>

fun dev_addrs :: "event list \<Rightarrow> u8 list" where
  "dev_addrs [] = []"
| "dev_addrs (e # evs) =
     (case e of
        Transmission a bs stop \<Rightarrow> a # dev_addrs evs
      | RequestFrom a q \<Rightarrow> a # dev_addrs evs
      | _ \<Rightarrow> dev_addrs evs)"

text \<open>The quantities asked of \<open>requestFrom\<close>.\<close>

fun requests :: "event list \<Rightarrow> u8 list" where
  "requests [] = []"
| "requests (e # evs) =
     (case e of RequestFrom a q \<Rightarrow> q # requests evs | _ \<Rightarrow> requests evs)"

text \<open>
  A transaction starts with the word address (one byte, or two when \<open>_addr_bytes > 1\<close>);
  the rest is payload.
\<close>

definition address_bytes :: "AT24CXX \<Rightarrow> nat" where
  "address_bytes c = (if addr_bytes c > 1 then 2 else 1)"

definition payload_lengths :: "AT24CXX \<Rightarrow> event list \<Rightarrow> nat list" where
  "payload_lengths c evs = map (\<lambda>(a, bs). length bs - address_bytes c) (transmissions evs)"

text \<open>
  The cursor of each transaction of a write: the start address, advanced by the payload
  of the transactions before it.
\<close>

fun cursors :: "int \<Rightarrow> nat list \<Rightarrow> int list" where
  "cursors cur [] = []"
| "cursors cur (l # ls) = cur # cursors (cur + int l) ls"

text \<open>
  The address encoder in the words of the specification (section 4.2), to compare the
  code with: start from \<open>0x50 | (select & 0x07)\<close>; if \<open>overflow_bits > 0\<close>, replace the
  low \<open>overflow_bits\<close> bits with bits \<open>[8 + overflow_bits - 1 : 8]\<close> of the address.
\<close>

definition spec_device_address :: "nat \<Rightarrow> u8 \<Rightarrow> int \<Rightarrow> u8" where
  "spec_device_address k select A =
     (if k > 0
      then ((0x50 OR (select AND 0x07)) AND NOT (mask k)) OR word_of_int (take_bit k (drop_bit 8 A))
      else 0x50 OR (select AND 0x07))"

text \<open>
  The effective page size in the words of the specification (section 4.3), to compare
  the code with: it is \<open>page_size_bytes\<close>, except that for parts with
  \<open>word_address_bytes = 2\<close> and \<open>N > 30\<close> it is 16.
\<close>

definition spec_effective_page_size :: "nat \<Rightarrow> nat \<Rightarrow> nat \<Rightarrow> nat" where
  "spec_effective_page_size page_size_bytes word_address_bytes N =
     (if word_address_bytes = 2 \<and> N > 30 then 16 else page_size_bytes)"

subsection \<open>A bus that answers\<close>

text \<open>
  The script of replies of a bus adapter that delivers what the read loop requests: the
  bytes \<open>ds\<close> the chip sends, 32 at a time.
\<close>

fun delivered :: "u8 list \<Rightarrow> u8 list list" where
  "delivered ds = (if ds = [] then [] else take 32 ds # delivered (drop 32 ds))"

section \<open>Properties\<close>

declare write_page.simps [simp del]
declare write_loop.simps [simp del]
declare read_loop.simps [simp del]
declare delivered.simps [simp del]

subsection \<open>Machine arithmetic\<close>

lemma u8_succ: "(a::u8) < b \<Longrightarrow> unat (a + 1) = Suc (unat a)"
proof -
  assume "a < b"
  then have "unat a < unat b"
    by (simp add: word_less_nat_alt)
  moreover have "unat b < 256"
    by (rule order_less_le_trans [OF unsigned_less]) simp
  ultimately have "unat a + 1 < 256"
    by arith
  then show ?thesis
    by (simp add: unat_word_ariths)
qed

text \<open>The sum of the range check is exact: it cannot wrap in 32 bits.\<close>

lemma in_range_iff:
  "in_range c address n \<longleftrightarrow> unat address + unat n \<le> unat (chip_size c)"
proof -
  define k where "k = uint address + uint n"
  have a: "uint address < 2 ^ 16"
    by (rule order_less_le_trans [OF uint_lt2p]) simp
  have b: "uint n < 2 ^ 8"
    by (rule order_less_le_trans [OF uint_lt2p]) simp
  have "0 \<le> k" "k < 2 ^ 32"
    using a b by (simp_all add: k_def)
  then have "uint (word_of_int k :: u32) = k"
    by (simp add: uint_word_of_int take_bit_int_eq_self)
  then have "in_range c address n \<longleftrightarrow> k \<le> uint (chip_size c)"
    unfolding in_range_def k_def [symmetric] by (simp add: word_le_def)
  also have "\<dots> \<longleftrightarrow> int (unat address + unat n) \<le> int (unat (chip_size c))"
    by (simp add: k_def)
  also have "\<dots> \<longleftrightarrow> unat address + unat n \<le> unat (chip_size c)"
    by (simp only: of_nat_le_iff)
  finally show ?thesis .
qed

text \<open>A \<open>uint8_t\<close> promoted to \<open>int\<close> is never \<open>-1\<close>: the guard on \<open>_wp_pin\<close> always holds.\<close>

lemma wp_configured_always: "wp_configured c"
proof -
  have "0 \<le> uint (wp_pin c)"
    by simp
  then show ?thesis
    unfolding wp_configured_def by arith
qed

lemma c_div_nat: "c_div (int a) (int b) = int (a div b)"
  by (cases "a = 0"; cases "b = 0") (simp_all add: c_div_def zdiv_int)

lemma ceiling_div_nat:
  assumes "0 < P"
  shows "\<lceil>real m / real P\<rceil> = int ((m + P - 1) div P)"
proof -
  define q where "q = (m + P - 1) div P"
  have r: "(m + P - 1) mod P < P"
    using assms by simp
  have e: "m + P - 1 = q * P + (m + P - 1) mod P"
    by (simp add: q_def)
  have up: "m \<le> q * P"
    using e r assms by arith
  have lo: "q * P < m + P"
    using e assms by arith
  have "real m \<le> real q * real P"
    using up by (metis of_nat_le_iff of_nat_mult)
  then have a: "real m / real P \<le> real q"
    using assms by (simp add: divide_le_eq)
  have "real q * real P < real m + real P"
    using lo by (metis of_nat_less_iff of_nat_mult of_nat_add)
  then have "(real q - 1) * real P < real m"
    by (simp add: algebra_simps)
  then have b: "real q - 1 < real m / real P"
    using assms by (simp add: less_divide_eq)
  show ?thesis
    unfolding q_def [symmetric] using a b by (intro ceiling_unique) simp_all
qed

lemma pages_req_eq:
  fixes address :: u16 and psize n j :: u8
  assumes "psize \<noteq> 0" "n \<noteq> 0"
  defines "j \<equiv> (word_of_int (uint address mod uint psize) :: u8)"
  shows "unat j = unat (address :: u16) mod unat (psize :: u8)"
    and "unat (word_of_int (c_div (uint (n :: u8) + uint j - 1) (uint psize) + 1) :: u8)
           = (unat n + unat address mod unat psize + unat psize - 1) div unat psize"
proof -
  define P where "P = unat psize"
  define N where "N = unat n"
  define J where "J = unat address mod P"
  have P0: "0 < P" using assms(1) by (simp add: P_def unat_gt_0)
  have N0: "0 < N" using assms(2) by (simp add: N_def unat_gt_0)
  have P256: "P < 256" unfolding P_def by (rule order_less_le_trans [OF unsigned_less]) simp
  have N256: "N < 256" unfolding N_def by (rule order_less_le_trans [OF unsigned_less]) simp
  have JP: "J < P" using P0 by (simp add: J_def)
  have "uint address mod uint psize = int J"
    by (simp add: J_def P_def zmod_int)
  then have jw: "j = of_nat J"
    by (simp add: j_def)
  have J256: "J < 256" using JP P256 by arith
  then show uj: "unat j = unat address mod unat psize"
    unfolding jw by (simp add: unat_of_nat J_def P_def)
  have ujJ: "unat j = J" using uj by (simp add: J_def P_def)
  have "uint j = int J" unfolding ujJ [symmetric] by simp
  moreover have "uint n = int N" unfolding N_def by simp
  ultimately have "uint n + uint j - 1 = int (N + J - 1)"
    using N0 by (simp add: of_nat_diff)
  moreover have "uint psize = int P" by (simp add: P_def)
  ultimately have "c_div (uint n + uint j - 1) (uint psize) + 1 = int ((N + J - 1) div P + 1)"
    by (simp add: c_div_nat)
  moreover define q where "q = (N + J - 1) div P + 1"
  ultimately have w: "(word_of_int (c_div (uint n + uint j - 1) (uint psize) + 1) :: u8) = of_nat q"
    by (simp only: of_int_of_nat_eq)
  have "N + J - 1 < 255 * P" using N256 JP P0 by arith
  then have "(N + J - 1) div P < 255" using P0 by (simp add: less_mult_imp_div_less)
  then have small: "q < 256" unfolding q_def by arith
  have "(N + J + P - 1) div P = (N + J - 1 + P) div P" using N0 by simp
  also have "\<dots> = q" unfolding q_def using P0 by (simp only: div_add_self2)
  finally have e: "(N + J + P - 1) div P = q" .
  have "unat (of_nat q :: u8) = q"
    using small by (simp add: unat_of_nat)
  then show "unat (word_of_int (c_div (uint n + uint j - 1) (uint psize) + 1) :: u8)
           = (unat n + unat address mod unat psize + unat psize - 1) div unat psize"
    unfolding w using e by (simp only: N_def J_def P_def)
qed

lemma cursor_bits: "drop_bit 8 ((cur::int) AND 0x0700) = take_bit 3 (drop_bit 8 cur)"
proof -
  have e: "(0x0700::int) = push_bit 8 (mask 3)"
    by (simp add: mask_eq_exp_minus_1)
  show ?thesis
    by (subst e, rule bit_eqI) (auto simp: bit_simps)
qed

lemma and_F8_word: "(w::u8) AND 0xF8 = push_bit 3 (drop_bit 3 w)"
proof -
  have e: "(0xF8::u8) = push_bit 3 (mask 5)"
    by (simp add: mask_eq_exp_minus_1)
  show ?thesis
    by (subst e, rule bit_word_eqI) (auto simp: bit_simps)
qed

lemma ov_addr_eq:
  "ov_addr c cur = (chip_addr c AND 0xF8) OR word_of_int (take_bit 3 (drop_bit 8 cur))"
  unfolding ov_addr_def cursor_bits
  by (simp only: of_int_or_eq of_int_and_eq word_of_int_uint) simp

lemma ov_addr_high: "ov_addr c cur AND 0xF8 = chip_addr c AND 0xF8"
  unfolding ov_addr_eq and_F8_word
  by (rule bit_word_eqI) (auto simp: bit_simps)

lemma ov_addr_low: "i < 3 \<Longrightarrow> bit (ov_addr c cur) i = bit cur (8 + i)"
  unfolding ov_addr_eq and_F8_word
  by (auto simp: bit_simps)

lemma base_addr_high: "(AT24CXX_ADDR OR (sel AND 0x07)) AND 0xF8 = (0x50 :: u8)"
proof -
  have e: "(0x07::u8) = mask 3"
    by (simp add: mask_eq_exp_minus_1)
  have g: "(0x50 :: u8) AND 0xF8 = 0x50"
    by simp
  have "(sel AND mask 3) AND 0xF8 = 0"
    unfolding and_F8_word by (rule bit_word_eqI) (auto simp: bit_simps)
  then show ?thesis
    unfolding AT24CXX_ADDR_def e by (simp add: bit.conj_disj_distrib2 g)
qed

lemma family_address:
  assumes "(a :: u8) AND 0xF8 = 0x50"
  shows "a AND 0xF0 = 0x50 \<and> 0x50 \<le> a \<and> a \<le> 0x57"
proof -
  have "a AND 0xF0 = (a AND 0xF8) AND 0xF0"
    by (simp add: and.assoc)
  then have hi: "a AND 0xF0 = 0x50"
    by (simp only: assms) simp
  have "push_bit 3 (drop_bit 3 a) + take_bit 3 a = a"
    by (rule bits_ident)
  then have id: "0x50 + take_bit 3 a = a"
    using assms by (simp only: and_F8_word)
  have "unat (take_bit 3 a) = take_bit 3 (unat a)"
    by (simp add: unsigned_take_bit_eq)
  also have "\<dots> < 2 ^ 3"
    by (rule take_bit_nat_less_exp)
  finally have lt: "unat (take_bit 3 a) < 8"
    by simp
  then have "unat (0x50 :: u8) + unat (take_bit 3 a) < 2 ^ LENGTH(8)"
    by simp
  then have "unat (0x50 + take_bit 3 a) = unat (0x50 :: u8) + unat (take_bit 3 a)"
    by (simp only: unat_add_lem)
  then have ua: "unat a = 80 + unat (take_bit 3 a)"
    by (simp only: id) simp
  have "0x50 \<le> a" "a \<le> 0x57"
    using ua lt by (simp_all add: word_le_nat_alt)
  with hi show ?thesis
    by simp
qed

lemma high_bits_of_family:
  assumes "(a :: u8) AND 0xF8 = 0x50" "3 \<le> i"
  shows "bit a i = bit (0x50 :: u8) i"
proof -
  have "bit (a AND 0xF8) i = bit a i"
    unfolding and_F8_word using assms(2) by (auto simp: bit_simps dest: bit_imp_le_length)
  then show ?thesis
    by (simp only: assms(1))
qed

lemma list_all2_of_maps:
  "map f xs = map g ys \<Longrightarrow> map f' xs = map g' ys
     \<Longrightarrow> list_all2 (\<lambda>x y. f x = g y \<and> f' x = g' y) xs ys"
proof (induction xs arbitrary: ys)
  case Nil
  then show ?case by simp
next
  case (Cons x xs)
  then obtain y ys' where "ys = y # ys'" by (cases ys) auto
  with Cons show ?case by simp
qed

subsection \<open>Configured controllers\<close>

lemma begin_fields:
  "chip_addr (fst (begin_AT24CXX c0 chip sel bus wp)) = AT24CXX_ADDR OR (sel AND 0x07)"
  "chip_size (fst (begin_AT24CXX c0 chip sel bus wp)) = chip AND 0x0001FFFF"
  "page_size (fst (begin_AT24CXX c0 chip sel bus wp)) = ucast (drop_bit 20 (chip AND 0x0FF00000))"
  "addr_bytes (fst (begin_AT24CXX c0 chip sel bus wp)) = ucast (drop_bit 28 (chip AND 0x30000000))"
  "addr_ov_bits (fst (begin_AT24CXX c0 chip sel bus wp)) = ucast (drop_bit 30 (chip AND 0xC0000000))"
  "mode (fst (begin_AT24CXX c0 chip sel bus wp)) = 1"
  "wire (fst (begin_AT24CXX c0 chip sel bus wp)) = Some bus"
  "wp_pin (fst (begin_AT24CXX c0 chip sel bus wp)) = wp"
  by (simp_all add: begin_AT24CXX_def Let_def)

lemma catalog_cases:
  assumes "chip \<in> set catalog"
  obtains "chip = AT24C01" | "chip = AT24C02" | "chip = AT24C04" | "chip = AT24C08"
    | "chip = AT24C16" | "chip = AT24C32" | "chip = AT24C64" | "chip = AT24C128"
    | "chip = AT24C256" | "chip = AT24C512"
  using assms unfolding catalog_def by auto

lemma catalog_page_size:
  assumes "chip \<in> set catalog"
  shows "page_size (fst (begin_AT24CXX c0 chip sel bus wp)) \<noteq> 0"
  using assms
  by (rule catalog_cases)
     (simp_all add: begin_fields AT24C01_def AT24C02_def AT24C04_def AT24C08_def AT24C16_def
        AT24C32_def AT24C64_def AT24C128_def AT24C256_def AT24C512_def)

lemma catalog_ov_bits:
  assumes "chip \<in> set catalog"
  shows "unat (addr_ov_bits (fst (begin_AT24CXX c0 chip sel bus wp))) \<le> 3"
  using assms
  by (rule catalog_cases)
     (simp_all add: begin_fields AT24C01_def AT24C02_def AT24C04_def AT24C08_def AT24C16_def
        AT24C32_def AT24C64_def AT24C128_def AT24C256_def AT24C512_def)

lemma catalog_chip_size:
  assumes "chip \<in> set catalog"
  shows "unat (chip_size (fst (begin_AT24CXX c0 chip sel bus wp))) \<le> 65536"
  using assms
  by (rule catalog_cases)
     (simp_all add: begin_fields AT24C01_def AT24C02_def AT24C04_def AT24C08_def AT24C16_def
        AT24C32_def AT24C64_def AT24C128_def AT24C256_def AT24C512_def)

lemma write_page_size_nonzero: "page_size c \<noteq> 0 \<Longrightarrow> write_page_size c n \<noteq> 0"
  by (simp add: write_page_size_def)

lemma catalog_addr_bytes:
  assumes "chip \<in> set catalog"
  shows "addr_bytes (fst (begin_AT24CXX c0 chip sel bus wp)) = 1
         \<or> addr_bytes (fst (begin_AT24CXX c0 chip sel bus wp)) = 2"
  using assms
  by (rule catalog_cases)
     (simp_all add: begin_fields AT24C01_def AT24C02_def AT24C04_def AT24C08_def AT24C16_def
        AT24C32_def AT24C64_def AT24C128_def AT24C256_def AT24C512_def)

text \<open>
  On the chips of the catalog the page size \<open>writeN\<close> splits with is the effective page
  size of the specification.
\<close>

lemma write_page_size_spec:
  assumes "c = fst (begin_AT24CXX c0 chip sel bus wp)" "chip \<in> set catalog"
  shows "unat (write_page_size c n)
           = spec_effective_page_size (unat (page_size c)) (unat (addr_bytes c)) (unat n)"
proof -
  have n: "30 < n \<longleftrightarrow> 30 < unat n"
    by (simp add: word_less_nat_alt)
  from catalog_addr_bytes [OF assms(2), of c0 sel bus wp]
  have "addr_bytes c = 1 \<or> addr_bytes c = 2"
    by (simp only: assms(1))
  then show ?thesis
  proof
    assume "addr_bytes c = 1"
    then show ?thesis
      by (simp add: write_page_size_def spec_effective_page_size_def)
  next
    assume "addr_bytes c = 2"
    then show ?thesis
      by (simp add: write_page_size_def spec_effective_page_size_def n)
  qed
qed

subsection \<open>The loops of the write engine\<close>

lemma write_loop_done:
  "\<not> i < pages_req
     \<Longrightarrow> write_loop c address vals n psize pages_req i j addr n_sent = (Returned True, [])"
  by (subst write_loop.simps) simp

lemma write_loop_step:
  assumes "i < pages_req" "wire c = Some b"
    and "write_page vals psize n j n_sent = Some (payload, j1, n_sent1)"
    and "write_loop c address vals n psize pages_req (i + 1) 0
           (if addr_ov_bits c \<noteq> 0 then ov_addr c (uint address + uint n_sent) else addr) n_sent1
         = (r, evs)"
  shows "write_loop c address vals n psize pages_req i j addr n_sent
           = (r, Transmission
                   (if addr_ov_bits c \<noteq> 0 then ov_addr c (uint address + uint n_sent) else addr)
                   (word_address c (uint address + uint n_sent) @ payload) True
                 # Delay EEPROM_WRITE_CYCLE_TIME_MS # evs)"
  using assms by (subst write_loop.simps) (simp add: Let_def)

lemma length_word_address: "length (word_address c cur) = address_bytes c"
  by (simp add: word_address_def address_bytes_def)

lemma write_page_exact:
  assumes "unat n \<le> length vals"
  shows "\<exists>bs j1. write_page vals psize n j n_sent = Some (bs, j1, n_sent + of_nat (length bs))
           \<and> length bs = min (unat psize - unat j) (unat n - unat n_sent)
           \<and> bs = take (length bs) (drop (unat n_sent) vals)"
proof (induction k \<equiv> "unat n - unat n_sent" arbitrary: j n_sent)
  case 0
  then have "\<not> n_sent < n" by (simp add: word_less_nat_alt)
  then show ?case using 0 by (subst write_page.simps) simp
next
  case (Suc k)
  then have lt: "n_sent < n" by (simp add: word_less_nat_alt)
  show ?case
  proof (cases "j < psize")
    case False
    then have "unat psize - unat j = 0" by (simp add: word_less_nat_alt)
    with False show ?thesis by (subst write_page.simps) simp
  next
    case True
    have s1: "unat (n_sent + 1) = Suc (unat n_sent)" using lt by (rule u8_succ)
    have s2: "unat (j + 1) = Suc (unat j)" using True by (rule u8_succ)
    have k: "k = unat n - unat (n_sent + 1)" using Suc(2) s1 by simp
    from Suc(1) [OF k, of "j + 1"] obtain bs j1 where
      rec: "write_page vals psize n (j + 1) (n_sent + 1) = Some (bs, j1, n_sent + 1 + of_nat (length bs))"
      and len: "length bs = min (unat psize - unat (j + 1)) (unat n - unat (n_sent + 1))"
      and bs: "bs = take (length bs) (drop (unat (n_sent + 1)) vals)"
      by blast
    have inb: "unat n_sent < length vals" using lt assms by (simp add: word_less_nat_alt)
    have jl: "unat j < unat psize" using True by (simp add: word_less_nat_alt)
    have nl: "unat n_sent < unat n" using lt by (simp add: word_less_nat_alt)
    have "write_page vals psize n j n_sent
            = Some (vals ! unat n_sent # bs, j1, n_sent + of_nat (length (vals ! unat n_sent # bs)))"
      using True lt inb rec by (subst write_page.simps) (simp add: add.assoc add.commute)
    moreover have "length (vals ! unat n_sent # bs) = min (unat psize - unat j) (unat n - unat n_sent)"
      using len s1 s2 jl nl by simp
    moreover have "vals ! unat n_sent # bs = take (length (vals ! unat n_sent # bs)) (drop (unat n_sent) vals)"
    proof -
      have "drop (unat n_sent) vals = vals ! unat n_sent # drop (Suc (unat n_sent)) vals"
        using inb by (simp add: Cons_nth_drop_Suc)
      then show ?thesis using bs s1 by simp
    qed
    ultimately show ?thesis by blast
  qed
qed

lemma write_page_sent:
  assumes "unat n \<le> length vals" "n_sent \<le> n"
  obtains payload j1 n_sent1 where
    "write_page vals psize n j n_sent = Some (payload, j1, n_sent1)"
    "length payload = min (unat psize - unat j) (unat n - unat n_sent)"
    "uint n_sent1 = uint n_sent + int (length payload)"
    "n_sent1 \<le> n"
    "payload = take (length payload) (drop (unat n_sent) vals)"
proof -
  from write_page_exact [OF assms(1), of psize j n_sent] obtain bs j1 where
    wp: "write_page vals psize n j n_sent = Some (bs, j1, n_sent + of_nat (length bs))"
    and len: "length bs = min (unat psize - unat j) (unat n - unat n_sent)"
    and bs: "bs = take (length bs) (drop (unat n_sent) vals)"
    by blast
  have le: "unat n_sent \<le> unat n"
    using assms(2) by (simp add: word_le_nat_alt)
  have n256: "unat n < 256"
    by (rule order_less_le_trans [OF unsigned_less]) simp
  have small: "length bs < 256"
    using len n256 by arith
  then have ul: "unat (of_nat (length bs) :: u8) = length bs"
    by (simp add: unat_of_nat)
  have "unat n_sent + length bs < 256"
    using len le n256 by arith
  then have "unat n_sent + unat (of_nat (length bs) :: u8) < 2 ^ LENGTH(8)"
    by (simp only: ul) simp
  then have "unat (n_sent + of_nat (length bs)) = unat n_sent + unat (of_nat (length bs) :: u8)"
    by (simp only: unat_add_lem)
  then have un: "unat (n_sent + of_nat (length bs)) = unat n_sent + length bs"
    by (simp only: ul)
  then have "int (unat (n_sent + of_nat (length bs))) = int (unat n_sent) + int (length bs)"
    by simp
  then have u: "uint (n_sent + of_nat (length bs)) = uint n_sent + int (length bs)"
    by simp
  have "unat n_sent + length bs \<le> unat n"
    using len le by arith
  then have "unat (n_sent + of_nat (length bs)) \<le> unat n"
    by (simp only: un)
  then have l: "n_sent + of_nat (length bs) \<le> n"
    by (simp add: word_le_nat_alt)
  from wp len u l bs show thesis
    by (rule that)
qed

lemma write_loop_trace:
  assumes "wire c = Some b" "unat n \<le> length vals"
  shows "n_sent \<le> n \<Longrightarrow>
         \<exists>evs. write_loop c address vals n psize pages_req i j addr n_sent = (Returned True, evs)
           \<and> length (transmissions evs) = unat pages_req - unat i
           \<and> (\<forall>l \<in> set (payload_lengths c evs). l \<le> unat psize)
           \<and> map fst (transmissions evs)
               = map (\<lambda>cur. if addr_ov_bits c \<noteq> 0 then ov_addr c cur else addr)
                   (cursors (uint address + uint n_sent) (payload_lengths c evs))
           \<and> map (take (address_bytes c) \<circ> snd) (transmissions evs)
               = map (word_address c) (cursors (uint address + uint n_sent) (payload_lengths c evs))"
proof (induction k \<equiv> "unat pages_req - unat i" arbitrary: i j addr n_sent)
  case 0
  then have "\<not> i < pages_req" by (simp add: word_less_nat_alt)
  then show ?case using 0 by (simp add: write_loop_done payload_lengths_def)
next
  case (Suc k)
  then have lt: "i < pages_req" by (simp add: word_less_nat_alt)
  have k: "k = unat pages_req - unat (i + 1)"
    using Suc(2) u8_succ [OF lt] by simp
  from assms(2) Suc(3) obtain payload j1 n_sent1 where
    wp: "write_page vals psize n j n_sent = Some (payload, j1, n_sent1)"
    and len: "length payload = min (unat psize - unat j) (unat n - unat n_sent)"
    and sent: "uint n_sent1 = uint n_sent + int (length payload)"
    and le: "n_sent1 \<le> n"
    by (rule write_page_sent)
  define addr1 where
    "addr1 = (if addr_ov_bits c \<noteq> 0 then ov_addr c (uint address + uint n_sent) else addr)"
  from Suc(1) [OF k le, of 0 addr1] obtain evs where
    rec: "write_loop c address vals n psize pages_req (i + 1) 0 addr1 n_sent1 = (Returned True, evs)"
    and cnt: "length (transmissions evs) = unat pages_req - unat (i + 1)"
    and pl: "\<forall>l \<in> set (payload_lengths c evs). l \<le> unat psize"
    and da: "map fst (transmissions evs)
               = map (\<lambda>cur. if addr_ov_bits c \<noteq> 0 then ov_addr c cur else addr1)
                   (cursors (uint address + uint n_sent1) (payload_lengths c evs))"
    and wa: "map (take (address_bytes c) \<circ> snd) (transmissions evs)
               = map (word_address c) (cursors (uint address + uint n_sent1) (payload_lengths c evs))"
    by blast
  let ?tx = "Transmission addr1 (word_address c (uint address + uint n_sent) @ payload) True"
  let ?evs = "?tx # Delay EEPROM_WRITE_CYCLE_TIME_MS # evs"
  have step: "write_loop c address vals n psize pages_req i j addr n_sent = (Returned True, ?evs)"
    using write_loop_step [OF lt assms(1) wp] rec unfolding addr1_def by simp
  have tr: "transmissions ?evs = (addr1, word_address c (uint address + uint n_sent) @ payload) # transmissions evs"
    by simp
  have pls: "payload_lengths c ?evs = length payload # payload_lengths c evs"
    by (simp add: payload_lengths_def length_word_address)
  have a1: "(if addr_ov_bits c \<noteq> 0 then ov_addr c (uint address + uint n_sent) else addr) = addr1"
    by (simp add: addr1_def)
  have a2: "(\<lambda>cur. if addr_ov_bits c \<noteq> 0 then ov_addr c cur else addr1)
             = (\<lambda>cur. if addr_ov_bits c \<noteq> 0 then ov_addr c cur else addr)"
    by (auto simp: addr1_def)
  have c1: "length (transmissions ?evs) = unat pages_req - unat i"
    using cnt k Suc(2) by simp
  have c2: "\<forall>l \<in> set (payload_lengths c ?evs). l \<le> unat psize"
    using pl len by (simp add: pls)
  have c3: "map fst (transmissions ?evs)
               = map (\<lambda>cur. if addr_ov_bits c \<noteq> 0 then ov_addr c cur else addr)
                   (cursors (uint address + uint n_sent) (payload_lengths c ?evs))"
    using da a1 unfolding pls tr a2 by (simp add: sent add.assoc)
  have c4: "map (take (address_bytes c) \<circ> snd) (transmissions ?evs)
               = map (word_address c) (cursors (uint address + uint n_sent) (payload_lengths c ?evs))"
    using wa unfolding pls tr by (simp add: sent add.assoc length_word_address)
  from step c1 c2 c3 c4 show ?case by blast
qed

lemma writeN_trace:
  assumes active: "mode c \<noteq> 0" "wire c = Some b"
    and psize: "write_page_size c n \<noteq> 0"
    and n: "n \<noteq> 0" "unat n \<le> length vals"
    and range: "unat address + unat n \<le> unat (chip_size c)"
  shows "\<exists>evs. writeN c address vals n = (Returned True, evs)
           \<and> length (transmissions evs)
               = (unat n + unat address mod unat (write_page_size c n) + unat (write_page_size c n) - 1)
                   div unat (write_page_size c n)
           \<and> (\<forall>l \<in> set (payload_lengths c evs). l \<le> unat (write_page_size c n))
           \<and> map fst (transmissions evs)
               = map (\<lambda>cur. if addr_ov_bits c \<noteq> 0 then ov_addr c cur else chip_addr c)
                   (cursors (uint address) (payload_lengths c evs))
           \<and> map (take (address_bytes c) \<circ> snd) (transmissions evs)
               = map (word_address c) (cursors (uint address) (payload_lengths c evs))"
proof -
  define P where "P = write_page_size c n"
  define j where "j = (word_of_int (uint address mod uint P) :: u8)"
  define pages_req where
    "pages_req = (word_of_int (c_div (uint n + uint j - 1) (uint P) + 1) :: u8)"
  have P0: "P \<noteq> 0"
    using psize by (simp add: P_def)
  have w: "writeN c address vals n = write_loop c address vals n P pages_req 0 j (chip_addr c) 0"
    using active(1) range P0
    by (simp add: writeN_def in_range_iff Let_def P_def [symmetric] j_def pages_req_def)
  have pr: "unat pages_req = (unat n + unat address mod unat P + unat P - 1) div unat P"
    unfolding pages_req_def j_def using P0 n(1) by (rule pages_req_eq(2))
  have "(0 :: u8) \<le> n"
    by simp
  from write_loop_trace [OF active(2) n(2) this, of address P pages_req 0 j "chip_addr c"]
  show ?thesis
    unfolding w P_def [symmetric] using pr by simp
qed

lemma write_loop_any:
  assumes "Q addr" "\<And>cur. Q (ov_addr c cur)"
  shows "fst (write_loop c address vals n psize pages_req i j addr n_sent) \<noteq> Returned False
         \<and> (\<forall>a \<in> set (dev_addrs
                          (snd (write_loop c address vals n psize pages_req i j addr n_sent))).
               Q a)"
  using assms(1)
proof (induction k \<equiv> "unat pages_req - unat i" arbitrary: i j addr n_sent)
  case 0
  then have "\<not> i < pages_req" by (simp add: word_less_nat_alt)
  then show ?case by (simp add: write_loop_done)
next
  case (Suc k)
  then have lt: "i < pages_req" by (simp add: word_less_nat_alt)
  have k: "k = unat pages_req - unat (i + 1)"
    using Suc(2) u8_succ [OF lt] by simp
  define addr1 where
    "addr1 = (if addr_ov_bits c \<noteq> 0 then ov_addr c (uint address + uint n_sent) else addr)"
  have q1: "Q addr1"
    using Suc(3) assms(2) by (simp add: addr1_def)
  note ih = Suc(1) [OF k q1, of 0]
  show ?case
  proof (cases "wire c")
    case None
    then show ?thesis using lt by (subst (1 2) write_loop.simps) (simp add: Let_def)
  next
    case (Some b)
    show ?thesis
    proof (cases "write_page vals psize n j n_sent")
      case None
      then show ?thesis using lt Some by (subst (1 2) write_loop.simps) (simp add: Let_def)
    next
      case (Some t)
      obtain payload j1 n_sent1 where t: "t = (payload, j1, n_sent1)"
        by (cases t) auto
      obtain r evs where rec:
        "write_loop c address vals n psize pages_req (i + 1) 0 addr1 n_sent1 = (r, evs)"
        by (cases "write_loop c address vals n psize pages_req (i + 1) 0 addr1 n_sent1") auto
      have "r \<noteq> Returned False" "\<forall>a \<in> set (dev_addrs evs). Q a"
        using ih [of n_sent1] rec by simp_all
      then show ?thesis
        using write_loop_step [OF lt \<open>wire c = Some b\<close> Some [unfolded t] rec [unfolded addr1_def]] q1
        by (simp add: addr1_def)
    qed
  qed
qed

lemma writeN_result:
  "fst (writeN c address vals n) = Returned False
     \<longleftrightarrow> \<not> (mode c \<noteq> 0 \<and> in_range c address n)"
  using write_loop_any [of "\<lambda>a. True"]
  by (simp add: writeN_def Let_def)

lemma writeN_dev_addrs:
  assumes "Q (chip_addr c)" "\<And>cur. Q (ov_addr c cur)"
  shows "\<forall>a \<in> set (dev_addrs (snd (writeN c address vals n))). Q a"
  using write_loop_any [of Q "chip_addr c" c, OF assms]
  by (simp add: writeN_def Let_def)

lemma writeN_out_of_range:
  "unat (chip_size c) < unat address + unat n
     \<Longrightarrow> writeN c address vals n = (Returned False, [])"
  by (simp add: writeN_def in_range_iff)

subsection \<open>The loop of the read engine\<close>

lemma read_loop_any:
  "fst (read_loop replies addr n vals bytes_read) \<noteq> Returned False
   \<and> (\<forall>a \<in> set (dev_addrs (fst (snd (read_loop replies addr n vals bytes_read)))). a = addr)"
proof (induction replies arbitrary: vals bytes_read)
  case Nil
  show ?case by (subst (1 2) read_loop.simps) (simp add: Let_def)
next
  case (Cons r rs)
  show ?case
  proof (cases "bytes_read < n")
    case False
    then show ?thesis by (subst (1 2) read_loop.simps) simp
  next
    case True
    show ?thesis
    proof (cases "drain r vals bytes_read")
      case None
      then show ?thesis using True by (subst (1 2) read_loop.simps) (simp add: Let_def)
    next
      case (Some t)
      obtain vals1 bytes_read1 where t: "t = (vals1, bytes_read1)"
        by (cases t) auto
      obtain res evs vals2 where rec: "read_loop rs addr n vals1 bytes_read1 = (res, evs, vals2)"
        by (cases "read_loop rs addr n vals1 bytes_read1") auto
      have "res \<noteq> Returned False" "\<forall>a \<in> set (dev_addrs evs). a = addr"
        using Cons [of vals1 bytes_read1] rec by simp_all
      then show ?thesis
        using True Some t rec by (subst (1 2) read_loop.simps) (simp add: Let_def)
    qed
  qed
qed

lemma readN_result:
  "fst (readN replies c address vals n) = Returned False
     \<longleftrightarrow> \<not> (mode c \<noteq> 0 \<and> in_range c address n)"
proof (cases "mode c \<noteq> 0 \<and> in_range c address n")
  case False
  then show ?thesis by (auto simp add: readN_def)
next
  case True
  show ?thesis
  proof (cases "wire c")
    case None
    with True show ?thesis by (simp add: readN_def Let_def)
  next
    case (Some b)
    define addr where
      "addr = (if addr_ov_bits c \<noteq> 0 then ov_addr c (uint address + 0) else chip_addr c)"
    obtain r evs vals1 where rl: "read_loop replies addr n vals 0 = (r, evs, vals1)"
      by (cases "read_loop replies addr n vals 0") auto
    then have "r \<noteq> Returned False"
      using read_loop_any [of replies addr n vals 0] by simp
    then show ?thesis
      using True Some rl by (simp add: readN_def Let_def addr_def [symmetric])
  qed
qed

lemma readN_dev_addrs:
  assumes "Q (chip_addr c)" "\<And>cur. Q (ov_addr c cur)"
  shows "\<forall>a \<in> set (dev_addrs (fst (snd (readN replies c address vals n)))). Q a"
proof (cases "mode c \<noteq> 0 \<and> in_range c address n")
  case False
  then show ?thesis by (auto simp add: readN_def)
next
  case True
  show ?thesis
  proof (cases "wire c")
    case None
    with True show ?thesis by (simp add: readN_def Let_def)
  next
    case (Some b)
    define addr where
      "addr = (if addr_ov_bits c \<noteq> 0 then ov_addr c (uint address + 0) else chip_addr c)"
    have q: "Q addr" using assms by (simp add: addr_def)
    obtain r evs vals1 where rl: "read_loop replies addr n vals 0 = (r, evs, vals1)"
      by (cases "read_loop replies addr n vals 0") auto
    then have "\<forall>a \<in> set (dev_addrs evs). a = addr"
      using read_loop_any [of replies addr n vals 0] by simp
    with q have "\<forall>a \<in> set (dev_addrs evs). Q a"
      by auto
    then show ?thesis
      using True Some rl q by (simp add: readN_def Let_def addr_def [symmetric])
  qed
qed

lemma readN_out_of_range:
  "unat (chip_size c) < unat address + unat n
     \<Longrightarrow> readN replies c address vals n = (Returned False, [], vals)"
  by (simp add: readN_def in_range_iff)

lemma read_val_events:
  "snd (read_val replies c address garbage) = fst (snd (readN replies c address [garbage] 1))"
  unfolding read_val_def
  by (cases "readN replies c address [garbage] 1" rule: prod_cases3)
     (auto split: outcome.splits)

lemma drain_stores:
  "unat b + length r \<le> length vals \<Longrightarrow> unat b + length r < 256
     \<Longrightarrow> drain r vals b
          = Some (take (unat b) vals @ r @ drop (unat b + length r) vals, b + of_nat (length r))"
proof (induction r arbitrary: vals b)
  case Nil
  then show ?case by simp
next
  case (Cons x r)
  have "unat b + 1 < 256"
    using Cons.prems(2) by simp
  then have sb: "unat (b + 1) = Suc (unat b)"
    by (simp add: unat_word_ariths)
  have inb: "unat b < length vals"
    using Cons.prems(1) by simp
  have "drain r (vals[unat b := x]) (b + 1)
          = Some (take (unat (b + 1)) (vals[unat b := x]) @ r
                    @ drop (unat (b + 1) + length r) (vals[unat b := x]),
                  b + 1 + of_nat (length r))"
    using Cons.prems by (intro Cons.IH) (simp_all add: sb)
  moreover have "take (unat (b + 1)) (vals[unat b := x]) = take (unat b) vals @ [x]"
    using inb by (simp add: sb take_Suc_conv_app_nth)
  moreover have "drop (unat (b + 1) + length r) (vals[unat b := x])
                   = drop (unat b + length (x # r)) vals"
    by (simp add: sb)
  ultimately show ?case
    using inb by (simp add: add.assoc add.commute)
qed

lemma read_loop_delivered:
  "unat b + length ds = unat n \<Longrightarrow> unat n \<le> length vals
     \<Longrightarrow> read_loop (delivered ds) addr n vals b
          = (Returned True,
             map (\<lambda>r. RequestFrom addr (of_nat (length r))) (delivered ds),
             take (unat b) vals @ ds @ drop (unat n) vals)"
proof (induction ds arbitrary: vals b rule: delivered.induct)
  case (1 ds)
  show ?case
  proof (cases "ds = []")
    case True
    then have "\<not> b < n"
      using "1.prems"(1) by (simp add: word_less_nat_alt)
    then show ?thesis
      using True "1.prems"(1) by (subst read_loop.simps) (simp add: delivered.simps)
  next
    case False
    define r where "r = take 32 ds"
    define len where "len = length r"
    define vals1 where "vals1 = take (unat b) vals @ r @ drop (unat b + len) vals"
    define b1 where "b1 = b + of_nat len"
    have n256: "unat n < 256"
      by (rule order_less_le_trans [OF unsigned_less]) simp
    have len: "len = min 32 (length ds)"
      by (simp add: len_def r_def)
    have "0 < length ds"
      using False by simp
    then have "unat b < unat n"
      using "1.prems"(1) by arith
    then have lt: "b < n"
      by (simp add: word_less_nat_alt)
    have fit: "unat b + len \<le> unat n"
      using len "1.prems"(1) by arith
    have ulen: "unat (of_nat len :: u8) = len"
      using fit n256 by (simp add: unat_of_nat)
    have "unat b + unat (of_nat len :: u8) < 2 ^ LENGTH(8)"
      using fit n256 by (simp only: ulen) simp
    then have "unat (b + of_nat len) = unat b + unat (of_nat len :: u8)"
      by (simp only: unat_add_lem)
    then have ub1: "unat b1 = unat b + len"
      by (simp only: b1_def ulen)
    have dl: "delivered ds = r # delivered (drop 32 ds)"
      using False by (subst delivered.simps) (simp add: r_def)
    have dr: "drain r vals b = Some (vals1, b1)"
      unfolding vals1_def b1_def len_def
      using fit "1.prems"(2) n256 by (intro drain_stores) (simp_all add: len_def)
    have "int (unat b + length ds) = int (unat n)"
      by (simp only: "1.prems"(1))
    then have "uint b + int (length ds) = uint n"
      by simp
    then have diff: "uint n - uint b = int (length ds)"
      by arith
    have bpc: "(if uint I2C_READ_BUFFER_SIZE < uint n - uint b then I2C_READ_BUFFER_SIZE
                else word_of_int (uint n - uint b)) = (of_nat len :: u8)"
      unfolding diff by (auto simp: I2C_READ_BUFFER_SIZE_def len)
    have lv1: "length vals1 = length vals"
      using fit "1.prems"(2) by (simp add: vals1_def len_def)
    have rest: "unat b1 + length (drop 32 ds) = unat n"
      using "1.prems"(1) by (simp add: ub1 len)
    have ih: "read_loop (delivered (drop 32 ds)) addr n vals1 b1
          = (Returned True,
             map (\<lambda>r. RequestFrom addr (of_nat (length r))) (delivered (drop 32 ds)),
             take (unat b1) vals1 @ drop 32 ds @ drop (unat n) vals1)"
      using False rest "1.prems"(2) by (intro "1.IH") (simp_all add: lv1)
    have bl: "unat b \<le> length vals"
      using fit "1.prems"(2) by arith
    have t1: "take (unat b1) vals1 = take (unat b) vals @ r"
      using bl by (simp add: ub1 vals1_def len_def)
    have t2: "drop (unat n) vals1 = drop (unat n) vals"
      using bl fit by (simp add: vals1_def len_def)
    have t3: "r @ drop 32 ds = ds"
      by (simp add: r_def)
    have "read_loop (delivered ds) addr n vals b
            = (Returned True,
               RequestFrom addr (of_nat len)
                 # map (\<lambda>r. RequestFrom addr (of_nat (length r))) (delivered (drop 32 ds)),
               take (unat b1) vals1 @ drop 32 ds @ drop (unat n) vals1)"
      using lt dr ih by (subst read_loop.simps) (simp add: dl bpc Let_def)
    then show ?thesis
      by (simp add: dl len_def t1 t2 t3)
  qed
qed

lemma delivered_chunks: "\<forall>r \<in> set (delivered ds). 0 < length r \<and> length r \<le> 32"
proof (induction ds rule: delivered.induct)
  case (1 ds)
  show ?case
  proof (cases "ds = []")
    case True
    then show ?thesis by (subst delivered.simps) simp
  next
    case False
    then have "delivered ds = take 32 ds # delivered (drop 32 ds)"
      by (subst delivered.simps) simp
    with 1 False show ?thesis
      by simp
  qed
qed

lemma concat_delivered: "concat (delivered ds) = ds"
proof (induction ds rule: delivered.induct)
  case (1 ds)
  show ?case
  proof (cases "ds = []")
    case True
    then show ?thesis by (subst delivered.simps) simp
  next
    case False
    then have "delivered ds = take 32 ds # delivered (drop 32 ds)"
      by (subst delivered.simps) simp
    with 1 False show ?thesis
      by simp
  qed
qed

lemma readN_delivered:
  assumes "mode c \<noteq> 0" "wire c = Some bus"
    and "unat address + unat n \<le> unat (chip_size c)"
    and "length ds = unat n" "unat n \<le> length vals"
  shows "readN (delivered ds) c address vals n
           = (Returned True,
              Transmission (if addr_ov_bits c \<noteq> 0 then ov_addr c (uint address) else chip_addr c)
                  (word_address c (uint address)) False
                # map (\<lambda>r. RequestFrom
                             (if addr_ov_bits c \<noteq> 0 then ov_addr c (uint address) else chip_addr c)
                             (of_nat (length r)))
                    (delivered ds),
              ds @ drop (unat n) vals)"
proof -
  have "unat (0 :: u8) + length ds = unat n"
    using assms(4) by simp
  from read_loop_delivered [OF this assms(5)] show ?thesis
    using assms(1-3) by (simp add: readN_def in_range_iff Let_def)
qed

lemma requests_map: "requests (map (\<lambda>r. RequestFrom a (f r)) rs) = map f rs"
  by (induction rs) simp_all

text \<open>
  The overload for \<open>char\<close> buffers does read \<open>n\<close> bytes: on a bus that delivers what is
  requested it returns true, requests the bytes in chunks of at most 32 and stores all
  of them. The overload for \<open>uint8_t\<close> buffers stops after the first.
\<close>

lemma read_str_delivered:
  assumes "mode c \<noteq> 0" "wire c = Some bus"
    and "unat address + unat n \<le> unat (chip_size c)"
    and "length ds = unat n" "unat n \<le> length str"
  shows "fst (read_str (delivered ds) c address str n) = Returned True"
    and "requests (fst (snd (read_str (delivered ds) c address str n)))
           = map (\<lambda>r. of_nat (length r)) (delivered ds)"
    and "snd (snd (read_str (delivered ds) c address str n)) = ds @ drop (unat n) str"
  unfolding read_str_def readN_delivered [OF assms]
  by (simp_all add: requests_map)

lemma read_vals_one_byte:
  assumes "mode c \<noteq> 0" "wire c = Some bus"
    and "unat address + 1 \<le> unat (chip_size c)"
    and "vals \<noteq> []"
  shows "fst (read_vals (delivered [d]) c address vals n) = Returned True"
    and "requests (fst (snd (read_vals (delivered [d]) c address vals n))) = [1]"
    and "snd (snd (read_vals (delivered [d]) c address vals n)) = d # tl vals"
proof -
  have l: "unat (1 :: u8) \<le> length vals"
    using assms(4) by (cases vals) simp_all
  have r: "unat address + unat (1 :: u8) \<le> unat (chip_size c)"
    using assms(3) by simp
  have d: "delivered [d] = [[d]]"
    by (simp add: delivered.simps)
  have t: "drop (unat (1 :: u8)) vals = tl vals"
    by (simp add: drop_Suc)
  note e = readN_delivered [OF assms(1) assms(2) r _ l, of "[d]", simplified d t]
  show "fst (read_vals (delivered [d]) c address vals n) = Returned True"
    and "requests (fst (snd (read_vals (delivered [d]) c address vals n))) = [1]"
    and "snd (snd (read_vals (delivered [d]) c address vals n)) = d # tl vals"
    unfolding read_vals_def d using e by simp_all
qed

subsection \<open>Before begin, and the write-protect pin\<close>

lemma setWriteProtect_always: "setWriteProtect c = [DigitalWrite (wp_pin c) True]"
  by (simp add: setWriteProtect_def wp_configured_always)

lemma clearWriteProtect_always: "clearWriteProtect c = [DigitalWrite (wp_pin c) False]"
  by (simp add: clearWriteProtect_def wp_configured_always)

text \<open>
  Before \<open>begin\<close>, the bus is never touched: \<open>isConnected\<close> and the two engines return
  false without an event.
\<close>

lemma unconfigured_bus_silent:
  "isConnected status AT24CXX_new = (Returned False, [])"
  "writeN AT24CXX_new address vals n = (Returned False, [])"
  "readN replies AT24CXX_new address vals n = (Returned False, [], vals)"
  by (simp_all add: isConnected_def writeN_def readN_def AT24CXX_new_def)

subsection \<open>Paged writes\<close>

text \<open>
  C1. On a controller configured by \<open>begin\<close> with a chip of the catalog, a write of \<open>n\<close>
  bytes, \<open>1 \<le> n \<le> 255\<close>, from a buffer that holds them, to a range within the
  capacity, returns true after exactly \<open>\<lceil>(n + address mod P) / P\<rceil>\<close> bus write
  transactions, and no transaction carries more than \<open>P\<close> payload bytes. \<open>P\<close> is the
  effective page size as the specification defines it: the page size of the chip, or 16
  for a chip with two word-address bytes when \<open>n > 30\<close>. On the AT24C02 of main.cpp,
  \<open>write(3, buf, 26)\<close> issues four transactions with 5, 8, 8 and 5 payload bytes, at the
  cursors 3, 8, 16 and 24 (the word-address byte each transaction starts with); on its
  AT24C64 (page size 32, select 1), \<open>write(62, buf, 26)\<close> issues two, with 2 and 24
  payload bytes, at the cursors 62 and 64.
\<close>

theorem paged_write_transactions:
  assumes "c = fst (begin_AT24CXX c0 chip sel bus wp)" "chip \<in> set catalog"
    and "1 \<le> unat n" "unat n \<le> length vals"
    and "unat address + unat n \<le> unat (chip_size c)"
  shows "(let P = spec_effective_page_size (unat (page_size c)) (unat (addr_bytes c)) (unat n)
          in \<exists>evs. write_vals c address vals n = (Returned True, evs)
               \<and> int (length (transmissions evs))
                   = \<lceil>real (unat n + unat address mod P) / real P\<rceil>
               \<and> (\<forall>l \<in> set (payload_lengths c evs). l \<le> P))
         \<and> write_vals eeprom_2k 3
               [0, 1, 2, 3, 4, 5, 6, 7, 8, 9, 10, 11, 12, 13, 14, 15, 16, 17, 18, 19, 20,
                21, 22, 23, 24, 25] 26
             = (Returned True,
                [Transmission 0x50 [3, 0, 1, 2, 3, 4] True, Delay 5,
                 Transmission 0x50 [8, 5, 6, 7, 8, 9, 10, 11, 12] True, Delay 5,
                 Transmission 0x50 [16, 13, 14, 15, 16, 17, 18, 19, 20] True, Delay 5,
                 Transmission 0x50 [24, 21, 22, 23, 24, 25] True, Delay 5])
         \<and> payload_lengths eeprom_2k
               [Transmission 0x50 [3, 0, 1, 2, 3, 4] True, Delay 5,
                Transmission 0x50 [8, 5, 6, 7, 8, 9, 10, 11, 12] True, Delay 5,
                Transmission 0x50 [16, 13, 14, 15, 16, 17, 18, 19, 20] True, Delay 5,
                Transmission 0x50 [24, 21, 22, 23, 24, 25] True, Delay 5]
             = [5, 8, 8, 5]
         \<and> cursors 3 [5, 8, 8, 5] = [3, 8, 16, 24]
         \<and> write_vals eeprom_64k 62
               [0, 1, 2, 3, 4, 5, 6, 7, 8, 9, 10, 11, 12, 13, 14, 15, 16, 17, 18, 19, 20,
                21, 22, 23, 24, 25] 26
             = (Returned True,
                [Transmission 0x51 [0x00, 0x3E, 0, 1] True, Delay 5,
                 Transmission 0x51
                   [0x00, 0x40, 2, 3, 4, 5, 6, 7, 8, 9, 10, 11, 12, 13, 14, 15, 16, 17, 18,
                    19, 20, 21, 22, 23, 24, 25] True,
                 Delay 5])
         \<and> payload_lengths eeprom_64k
               [Transmission 0x51 [0x00, 0x3E, 0, 1] True, Delay 5,
                Transmission 0x51
                  [0x00, 0x40, 2, 3, 4, 5, 6, 7, 8, 9, 10, 11, 12, 13, 14, 15, 16, 17, 18,
                   19, 20, 21, 22, 23, 24, 25] True,
                Delay 5]
             = [2, 24]
         \<and> cursors 62 [2, 24] = [62, 64]"
proof -
  define P where
    "P = spec_effective_page_size (unat (page_size c)) (unat (addr_bytes c)) (unat n)"
  have active: "mode c \<noteq> 0" "wire c = Some bus"
    by (simp_all add: assms(1) begin_fields)
  have P0: "write_page_size c n \<noteq> 0"
    unfolding assms(1) using assms(2) by (intro write_page_size_nonzero catalog_page_size)
  have PP: "unat (write_page_size c n) = P"
    unfolding P_def using assms(1) assms(2) by (rule write_page_size_spec)
  have Ppos: "0 < P"
    using P0 unfolding PP [symmetric] by (simp add: unat_gt_0)
  have n0: "n \<noteq> 0"
    using assms(3) by auto
  from writeN_trace [OF active P0 n0 assms(4) assms(5)] obtain evs where
    w: "writeN c address vals n = (Returned True, evs)"
    and cnt: "length (transmissions evs) = (unat n + unat address mod P + P - 1) div P"
    and pl: "\<forall>l \<in> set (payload_lengths c evs). l \<le> P"
    unfolding PP by blast
  have cnt': "int (length (transmissions evs)) = \<lceil>real (unat n + unat address mod P) / real P\<rceil>"
    unfolding cnt by (rule ceiling_div_nat [OF Ppos, symmetric])
  have "\<exists>evs. write_vals c address vals n = (Returned True, evs)
            \<and> int (length (transmissions evs)) = \<lceil>real (unat n + unat address mod P) / real P\<rceil>
            \<and> (\<forall>l \<in> set (payload_lengths c evs). l \<le> P)"
    unfolding write_vals_def using w cnt' pl by blast
  then have general:
    "let P = spec_effective_page_size (unat (page_size c)) (unat (addr_bytes c)) (unat n)
     in \<exists>evs. write_vals c address vals n = (Returned True, evs)
          \<and> int (length (transmissions evs)) = \<lceil>real (unat n + unat address mod P) / real P\<rceil>
          \<and> (\<forall>l \<in> set (payload_lengths c evs). l \<le> P)"
    unfolding Let_def P_def .
  have ex1: "write_vals eeprom_2k 3
               [0, 1, 2, 3, 4, 5, 6, 7, 8, 9, 10, 11, 12, 13, 14, 15, 16, 17, 18, 19, 20,
                21, 22, 23, 24, 25] 26
             = (Returned True,
                [Transmission 0x50 [3, 0, 1, 2, 3, 4] True, Delay 5,
                 Transmission 0x50 [8, 5, 6, 7, 8, 9, 10, 11, 12] True, Delay 5,
                 Transmission 0x50 [16, 13, 14, 15, 16, 17, 18, 19, 20] True, Delay 5,
                 Transmission 0x50 [24, 21, 22, 23, 24, 25] True, Delay 5])"
    by code_simp
  have ex2: "payload_lengths eeprom_2k
               [Transmission 0x50 [3, 0, 1, 2, 3, 4] True, Delay 5,
                Transmission 0x50 [8, 5, 6, 7, 8, 9, 10, 11, 12] True, Delay 5,
                Transmission 0x50 [16, 13, 14, 15, 16, 17, 18, 19, 20] True, Delay 5,
                Transmission 0x50 [24, 21, 22, 23, 24, 25] True, Delay 5]
             = [5, 8, 8, 5]"
    by code_simp
  have ex3: "cursors 3 [5, 8, 8, 5] = [3, 8, 16, 24]"
    by simp
  have ex4: "write_vals eeprom_64k 62
               [0, 1, 2, 3, 4, 5, 6, 7, 8, 9, 10, 11, 12, 13, 14, 15, 16, 17, 18, 19, 20,
                21, 22, 23, 24, 25] 26
             = (Returned True,
                [Transmission 0x51 [0x00, 0x3E, 0, 1] True, Delay 5,
                 Transmission 0x51
                   [0x00, 0x40, 2, 3, 4, 5, 6, 7, 8, 9, 10, 11, 12, 13, 14, 15, 16, 17, 18,
                    19, 20, 21, 22, 23, 24, 25] True,
                 Delay 5])"
    by code_simp
  have ex5: "payload_lengths eeprom_64k
               [Transmission 0x51 [0x00, 0x3E, 0, 1] True, Delay 5,
                Transmission 0x51
                  [0x00, 0x40, 2, 3, 4, 5, 6, 7, 8, 9, 10, 11, 12, 13, 14, 15, 16, 17, 18,
                   19, 20, 21, 22, 23, 24, 25] True,
                Delay 5]
             = [2, 24]"
    by code_simp
  have ex6: "cursors 62 [2, 24] = [62, 64]"
    by simp
  from general ex1 ex2 ex3 ex4 ex5 ex6 show ?thesis
    by (intro conjI)
qed

theorem paged_write_transactions_witness:
  "eeprom_64k = fst (begin_AT24CXX AT24CXX_new AT24C64 0x01 1 default_wp_pin)
   \<and> AT24C64 \<in> set catalog
   \<and> 1 \<le> unat (26 :: u8) \<and> unat (26 :: u8) \<le> length (replicate 26 (0 :: u8))
   \<and> unat (62 :: u16) + unat (26 :: u8) \<le> unat (chip_size eeprom_64k)
   \<and> spec_effective_page_size (unat (page_size eeprom_64k)) (unat (addr_bytes eeprom_64k))
         (unat (26 :: u8)) = 32
   \<and> (\<exists>evs. write_vals eeprom_64k 62 (replicate 26 0) 26 = (Returned True, evs)
          \<and> length (transmissions evs) = 2
          \<and> (\<forall>l \<in> set (payload_lengths eeprom_64k evs). l \<le> 32))"
proof -
  have h1: "eeprom_64k = fst (begin_AT24CXX AT24CXX_new AT24C64 0x01 1 default_wp_pin)"
    by (simp add: eeprom_64k_def configured_def)
  have h2: "AT24C64 \<in> set catalog"
    by (simp add: catalog_def)
  have h3: "1 \<le> unat (26 :: u8)"
    by simp
  have h4: "unat (26 :: u8) \<le> length (replicate 26 (0 :: u8))"
    by simp
  have h5: "unat (62 :: u16) + unat (26 :: u8) \<le> unat (chip_size eeprom_64k)"
    by (simp add: eeprom_64k_def configured_def begin_fields AT24C64_def)
  have f: "page_size eeprom_64k = 32" "addr_bytes eeprom_64k = 2"
    by (simp_all add: eeprom_64k_def configured_def begin_fields AT24C64_def)
  have P: "spec_effective_page_size (unat (page_size eeprom_64k)) (unat (addr_bytes eeprom_64k))
             (unat (26 :: u8)) = 32"
    by (simp add: f spec_effective_page_size_def)
  have c: "\<lceil>real (unat (26 :: u8) + unat (62 :: u16) mod 32) / real 32\<rceil> = 2"
    by (simp add: ceiling_eq_iff)
  from paged_write_transactions [OF h1 h2 h3 h4 h5, THEN conjunct1]
  have "\<exists>evs. write_vals eeprom_64k 62 (replicate 26 0) 26 = (Returned True, evs)
          \<and> int (length (transmissions evs)) = 2
          \<and> (\<forall>l \<in> set (payload_lengths eeprom_64k evs). l \<le> 32)"
    unfolding Let_def P c .
  then have "\<exists>evs. write_vals eeprom_64k 62 (replicate 26 0) 26 = (Returned True, evs)
          \<and> length (transmissions evs) = 2
          \<and> (\<forall>l \<in> set (payload_lengths eeprom_64k evs). l \<le> 32)"
    by simp
  with h1 h2 h3 h4 h5 P show ?thesis
    by (intro conjI)
qed

subsection \<open>Device addresses on parts with overflow bits\<close>

text \<open>
  C2. The specification has the device address of a write transaction on a part with
  \<open>k > 0\<close> overflow bits keep \<open>0x50\<close> and the select bits above the low \<open>k\<close> bits, and
  carry bits \<open>8 + k - 1\<close>..8 of the cursor in its low \<open>k\<close> bits. \<open>_addr_ov_bits\<close> holds
  \<open>k\<close>, but \<open>writeN\<close> only tests it against zero and then masks with the fixed \<open>0xF8\<close>,
  which is right for \<open>k = 3\<close> alone. On AT24C04 (\<open>k = 1\<close>) configured with select 2,
  \<open>isConnected\<close> probes \<open>0x52\<close>, the address \<open>begin\<close> formed and the encoder of the
  specification gives, and \<open>write(0, buf, 1)\<close> goes to \<open>0x50\<close>; on AT24C08 (\<open>k = 2\<close>) with
  select 4 the probe goes to \<open>0x54\<close> and the write to \<open>0x50\<close>.
\<close>

theorem overflow_write_drops_select:
  "addr_ov_bits (configured AT24C04 2) = 1
   \<and> chip_addr (configured AT24C04 2) = 0x52
   \<and> dev_addrs (snd (isConnected 0 (configured AT24C04 2))) = [0x52]
   \<and> spec_device_address 1 2 0 = 0x52
   \<and> write_vals (configured AT24C04 2) 0 [7] 1
       = (Returned True, [Transmission 0x50 [0, 7] True, Delay 5])
   \<and> addr_ov_bits (configured AT24C08 4) = 2
   \<and> dev_addrs (snd (isConnected 0 (configured AT24C08 4))) = [0x54]
   \<and> spec_device_address 2 4 0 = 0x54
   \<and> write_vals (configured AT24C08 4) 0 [7] 1
       = (Returned True, [Transmission 0x50 [0, 7] True, Delay 5])"
  by code_simp

text \<open>
  The defect in general: on a chip of the catalog with overflow bits, every transaction
  of a write within the capacity goes to the address the encoder of the specification
  would form with \<open>k = 3\<close>, whatever \<open>k\<close> the chip has. The low three bits are bits 10..8 of
  the cursor and the bits above are those of \<open>0x50\<close>, so the select value never reaches
  the bus. On AT24C08 with select 0, a write of 21 bytes at 510 uses \<open>0x51\<close> for the
  transaction at 510 and \<open>0x52\<close> for those at 512 and 528.
\<close>

lemma overflow_write_addresses:
  assumes "c = fst (begin_AT24CXX c0 chip sel bus wp)" "chip \<in> set catalog"
    and "addr_ov_bits c \<noteq> 0"
    and "1 \<le> unat n" "unat n \<le> length vals"
    and "unat address + unat n \<le> unat (chip_size c)"
  shows "(\<exists>evs. write_vals c address vals n = (Returned True, evs)
            \<and> list_all2
                 (\<lambda>(a, bs) cur.
                    (\<forall>i < unat (addr_ov_bits c). bit a i = bit cur (8 + i))
                    \<and> (\<forall>i < 3. bit a i = bit cur (8 + i))
                    \<and> (\<forall>i \<ge> 3. bit a i = bit (0x50 :: u8) i)
                    \<and> a = spec_device_address 3 sel cur
                    \<and> take (address_bytes c) bs = word_address c cur)
                 (transmissions evs) (cursors (uint address) (payload_lengths c evs)))
         \<and> map fst (transmissions (snd (write_vals (configured AT24C08 0) 510
               [72, 101, 108, 108, 111, 44, 32, 65, 84, 50, 52, 67, 48, 56, 32, 119, 111, 114,
                108, 100, 33] 21)))
             = [0x51, 0x52, 0x52]
         \<and> cursors 510 (payload_lengths (configured AT24C08 0)
               (snd (write_vals (configured AT24C08 0) 510
               [72, 101, 108, 108, 111, 44, 32, 65, 84, 50, 52, 67, 48, 56, 32, 119, 111, 114,
                108, 100, 33] 21)))
             = [510, 512, 528]"
proof -
  have active: "mode c \<noteq> 0" "wire c = Some bus"
    by (simp_all add: assms(1) begin_fields)
  have P0: "write_page_size c n \<noteq> 0"
    unfolding assms(1) using assms(2) by (intro write_page_size_nonzero catalog_page_size)
  have n0: "n \<noteq> 0"
    using assms(4) by auto
  have k3: "unat (addr_ov_bits c) \<le> 3"
    unfolding assms(1) using assms(2) by (rule catalog_ov_bits)
  have base: "chip_addr c AND 0xF8 = 0x50"
    by (simp only: assms(1) begin_fields base_addr_high)
  from writeN_trace [OF active P0 n0 assms(5) assms(6)] obtain evs where
    w: "writeN c address vals n = (Returned True, evs)"
    and da: "map fst (transmissions evs)
               = map (\<lambda>cur. if addr_ov_bits c \<noteq> 0 then ov_addr c cur else chip_addr c)
                   (cursors (uint address) (payload_lengths c evs))"
    and wa: "map (take (address_bytes c) \<circ> snd) (transmissions evs)
               = map (word_address c) (cursors (uint address) (payload_lengths c evs))"
    by blast
  have da': "map fst (transmissions evs)
               = map (ov_addr c) (cursors (uint address) (payload_lengths c evs))"
    using da assms(3) by simp
  have both: "list_all2
      (\<lambda>t cur. fst t = ov_addr c cur \<and> (take (address_bytes c) \<circ> snd) t = word_address c cur)
      (transmissions evs) (cursors (uint address) (payload_lengths c evs))"
    using da' wa by (rule list_all2_of_maps)
  let ?R = "(\<lambda>(a, bs) cur.
          (\<forall>i < unat (addr_ov_bits c). bit a i = bit cur (8 + i))
          \<and> (\<forall>i < 3. bit a i = bit cur (8 + i))
          \<and> (\<forall>i \<ge> 3. bit a i = bit (0x50 :: u8) i)
          \<and> a = spec_device_address 3 sel cur
          \<and> take (address_bytes c) bs = word_address c cur)"
  from both have "list_all2 ?R (transmissions evs) (cursors (uint address) (payload_lengths c evs))"
  proof (rule list_all2_mono)
    fix t :: "u8 \<times> u8 list" and cur :: int
    assume h: "fst t = ov_addr c cur \<and> (take (address_bytes c) \<circ> snd) t = word_address c cur"
    obtain a bs where t: "t = (a, bs)"
      by (cases t) auto
    have a: "a = ov_addr c cur" and bs: "take (address_bytes c) bs = word_address c cur"
      using h t by simp_all
    have hi: "a AND 0xF8 = 0x50"
      unfolding a ov_addr_high by (rule base)
    have low: "\<forall>i < 3. bit a i = bit cur (8 + i)"
      unfolding a by (simp add: ov_addr_low)
    then have lowk: "\<forall>i < unat (addr_ov_bits c). bit a i = bit cur (8 + i)"
      using k3 by auto
    have high: "\<forall>i \<ge> 3. bit a i = bit (0x50 :: u8) i"
      using hi by (simp add: high_bits_of_family)
    have m: "NOT (mask 3 :: u8) = 0xF8"
      by (simp add: mask_eq_exp_minus_1)
    have "a = (chip_addr c AND NOT (mask 3)) OR word_of_int (take_bit 3 (drop_bit 8 cur))"
      unfolding a ov_addr_eq by (simp only: m)
    then have spec: "a = spec_device_address 3 sel cur"
      unfolding spec_device_address_def
      by (simp only: assms(1) begin_fields AT24CXX_ADDR_def) simp
    from lowk low high spec bs show "?R t cur"
      unfolding t by simp
  qed
  then have general: "\<exists>evs. write_vals c address vals n = (Returned True, evs)
            \<and> list_all2
                 (\<lambda>(a, bs) cur.
                    (\<forall>i < unat (addr_ov_bits c). bit a i = bit cur (8 + i))
                    \<and> (\<forall>i < 3. bit a i = bit cur (8 + i))
                    \<and> (\<forall>i \<ge> 3. bit a i = bit (0x50 :: u8) i)
                    \<and> a = spec_device_address 3 sel cur
                    \<and> take (address_bytes c) bs = word_address c cur)
                 (transmissions evs) (cursors (uint address) (payload_lengths c evs))"
    unfolding write_vals_def using w by blast
  have ex1: "map fst (transmissions (snd (write_vals (configured AT24C08 0) 510
               [72, 101, 108, 108, 111, 44, 32, 65, 84, 50, 52, 67, 48, 56, 32, 119, 111, 114,
                108, 100, 33] 21)))
             = [0x51, 0x52, 0x52]"
    by code_simp
  have ex2: "cursors 510 (payload_lengths (configured AT24C08 0)
               (snd (write_vals (configured AT24C08 0) 510
               [72, 101, 108, 108, 111, 44, 32, 65, 84, 50, 52, 67, 48, 56, 32, 119, 111, 114,
                108, 100, 33] 21)))
             = [510, 512, 528]"
    by code_simp
  from general ex1 ex2 show ?thesis
    by (intro conjI)
qed

subsection \<open>Multi-byte reads into a byte buffer\<close>

text \<open>
  C3. The specification has \<open>read(A, out, n)\<close> transfer \<open>n\<close> bytes. The overload for
  \<open>uint8_t*\<close> passes the length 1 to \<open>readN\<close>: asked for 2 bytes at address 0 of
  \<open>eeprom_2k\<close>, on a bus that delivers what is requested, it requests one byte, stores
  one byte and returns true; \<open>out[1]\<close> keeps its old value.
\<close>

theorem read_vals_transfers_one_byte:
  "read_vals [[9]] eeprom_2k 0 [0, 0] 2
     = (Returned True, [Transmission 0x50 [0] False, RequestFrom 0x50 1], [9, 0])"
  by code_simp

subsection \<open>Long writes on parts with two address bytes\<close>

text \<open>
  C4. On an active controller with two word-address bytes, a write of more than 30 bytes
  is split with the effective page size 16, whatever the page size of the chip: it
  takes \<open>\<lceil>(n + address mod 16) / 16\<rceil>\<close> transactions of at most 16 payload bytes.
  On the AT24C64 of main.cpp (page size 32), \<open>write(0, buf, 40)\<close> issues three
  transactions with 16, 16 and 8 payload bytes.
\<close>

theorem wide_address_long_write_pages_of_16:
  assumes "mode c \<noteq> 0" "wire c = Some bus" "addr_bytes c = 2"
    and "30 < unat n" "unat n \<le> length vals"
    and "unat address + unat n \<le> unat (chip_size c)"
  shows "write_page_size c n = 16
         \<and> (\<exists>evs. write_vals c address vals n = (Returned True, evs)
               \<and> int (length (transmissions evs)) = \<lceil>real (unat n + unat address mod 16) / 16\<rceil>
               \<and> (\<forall>l \<in> set (payload_lengths c evs). l \<le> 16))
         \<and> addr_bytes eeprom_64k = 2 \<and> page_size eeprom_64k = 32
         \<and> payload_lengths eeprom_64k (snd (write_vals eeprom_64k 0 (replicate 40 0x78) 40))
             = [16, 16, 8]"
proof -
  have "(30 :: u8) < n"
    using assms(4) by (simp add: word_less_nat_alt)
  then have P: "write_page_size c n = 16"
    using assms(3) by (simp add: write_page_size_def)
  then have P0: "write_page_size c n \<noteq> 0"
    by simp
  have n0: "n \<noteq> 0"
    using assms(4) by auto
  from writeN_trace [OF assms(1) assms(2) P0 n0 assms(5) assms(6)] obtain evs where
    w: "writeN c address vals n = (Returned True, evs)"
    and cnt: "length (transmissions evs) = (unat n + unat address mod 16 + 16 - 1) div 16"
    and pl: "\<forall>l \<in> set (payload_lengths c evs). l \<le> 16"
    unfolding P by auto
  have "int (length (transmissions evs)) = \<lceil>real (unat n + unat address mod 16) / real 16\<rceil>"
    unfolding cnt by (rule ceiling_div_nat [symmetric]) simp
  then have cnt': "int (length (transmissions evs)) = \<lceil>real (unat n + unat address mod 16) / 16\<rceil>"
    by simp
  have general: "\<exists>evs. write_vals c address vals n = (Returned True, evs)
               \<and> int (length (transmissions evs)) = \<lceil>real (unat n + unat address mod 16) / 16\<rceil>
               \<and> (\<forall>l \<in> set (payload_lengths c evs). l \<le> 16)"
    unfolding write_vals_def using w cnt' pl by blast
  have ex0: "addr_bytes eeprom_64k = 2" "page_size eeprom_64k = 32"
    by code_simp+
  have ex: "payload_lengths eeprom_64k (snd (write_vals eeprom_64k 0 (replicate 40 0x78) 40))
             = [16, 16, 8]"
    by code_simp
  from P general ex0 ex show ?thesis
    by (intro conjI)
qed

theorem wide_address_long_write_pages_of_16_witness:
  "mode eeprom_64k \<noteq> 0 \<and> wire eeprom_64k = Some 1 \<and> addr_bytes eeprom_64k = 2
   \<and> 30 < unat (40 :: u8) \<and> unat (40 :: u8) \<le> length (replicate 40 (0x78 :: u8))
   \<and> unat (0 :: u16) + unat (40 :: u8) \<le> unat (chip_size eeprom_64k)
   \<and> write_page_size eeprom_64k 40 = 16
   \<and> (\<exists>evs. write_vals eeprom_64k 0 (replicate 40 0x78) 40 = (Returned True, evs)
          \<and> length (transmissions evs) = 3
          \<and> (\<forall>l \<in> set (payload_lengths eeprom_64k evs). l \<le> 16))"
proof -
  have h1: "mode eeprom_64k \<noteq> 0"
    by code_simp
  have h2: "wire eeprom_64k = Some 1"
    by code_simp
  have h3: "addr_bytes eeprom_64k = 2"
    by code_simp
  have h4: "30 < unat (40 :: u8)"
    by simp
  have h5: "unat (40 :: u8) \<le> length (replicate 40 (0x78 :: u8))"
    by simp
  have h6: "unat (0 :: u16) + unat (40 :: u8) \<le> unat (chip_size eeprom_64k)"
    by code_simp
  have "\<lceil>real (unat (40 :: u8) + unat (0 :: u16) mod 16) / 16\<rceil> = 3"
    by (simp add: ceiling_eq_iff)
  with wide_address_long_write_pages_of_16 [OF h1 h2 h3 h4 h5 h6] h1 h2 h3 h4 h5 h6 show ?thesis
    by (simp only:) simp
qed

subsection \<open>Writes past the capacity\<close>

text \<open>
  C5. Whatever the state of the controller, a multi-byte write (either overload) whose
  range ends past the capacity, \<open>address + n > _chip_size\<close>, returns false and causes no
  event at all: no bus transaction, no delay.
\<close>

theorem write_past_capacity_refused:
  assumes "unat (chip_size c) < unat address + unat n"
  shows "write_vals c address vals n = (Returned False, [])
         \<and> write_str c address str n = (Returned False, [])"
  using assms by (simp add: write_vals_def write_str_def writeN_out_of_range)

theorem write_past_capacity_refused_witness:
  "unat (chip_size eeprom_2k) < unat (255 :: u16) + unat (2 :: u8)
   \<and> write_vals eeprom_2k 255 [1, 2] 2 = (Returned False, [])
   \<and> write_str eeprom_2k 255 [1, 2] 2 = (Returned False, [])"
proof -
  have h: "unat (chip_size eeprom_2k) < unat (255 :: u16) + unat (2 :: u8)"
    by code_simp
  show ?thesis
    using h write_past_capacity_refused [OF h] by simp
qed

subsection \<open>Reads past the capacity\<close>

text \<open>
  C6. The specification has a multi-byte read whose range ends past the capacity return
  false without bus traffic. The overload for \<open>uint8_t*\<close> checks the range of one byte
  only: \<open>read(255, out, 2)\<close> on the 256-byte \<open>eeprom_2k\<close> addresses the chip, requests a
  byte and returns true.
\<close>

theorem read_vals_past_capacity_accepted:
  "read_vals [[9]] eeprom_2k 255 [0, 0] 2
     = (Returned True, [Transmission 0x50 [0xFF] False, RequestFrom 0x50 1], [9, 0])"
  by code_simp

subsection \<open>Operations before begin\<close>

text \<open>
  C7. The specification has every operation on a controller that \<open>begin\<close> was never
  called on be a no-op. The write-protect operations are not: on the freshly constructed
  controller \<open>setWriteProtect\<close> calls \<open>digitalWrite(255, HIGH)\<close> and \<open>clearWriteProtect\<close>
  calls \<open>digitalWrite(255, LOW)\<close>, because the constructor's \<open>_wp_pin = -1\<close> is stored
  as 255 and the guard \<open>_wp_pin != -1\<close> is then true.
\<close>

theorem unconfigured_write_protect_drives_pin:
  "setWriteProtect AT24CXX_new = [DigitalWrite 255 True]
   \<and> clearWriteProtect AT24CXX_new = [DigitalWrite 255 False]"
  by code_simp

subsection \<open>Write protection without a WP line\<close>

text \<open>
  C8. The specification has the two write-protect operations drive no pin when no WP
  line was configured at \<open>begin\<close>. On \<open>eeprom_2k\<close>, which main.cpp configures without a WP
  line, \<open>begin\<close> itself calls \<open>pinMode(255, OUTPUT)\<close> and \<open>digitalWrite(255, LOW)\<close>, and
  the two operations call \<open>digitalWrite(255, HIGH)\<close> and \<open>digitalWrite(255, LOW)\<close>.
\<close>

theorem write_protect_without_wp_line_drives_pin:
  "snd (begin_AT24CXX AT24CXX_new AT24C02 0x00 1 default_wp_pin)
     = [PinMode 255, DigitalWrite 255 False]
   \<and> setWriteProtect eeprom_2k = [DigitalWrite 255 True]
   \<and> clearWriteProtect eeprom_2k = [DigitalWrite 255 False]"
  by code_simp

subsection \<open>The family of device addresses\<close>

text \<open>
  C9. On a controller configured by \<open>begin\<close> with any chip constant and any select
  value, every device address that any public operation hands to \<open>beginTransmission\<close>
  or \<open>requestFrom\<close> has the upper four bits \<open>0x5\<close> and lies in \<open>0x50..0x57\<close>, with or
  without overflow bits, whatever the request and whatever the bus delivers.
\<close>

theorem device_addresses_in_family:
  assumes "c = fst (begin_AT24CXX c0 chip sel bus wp)"
  shows "\<forall>a \<in> set (dev_addrs (snd (isConnected status c)))
              \<union> set (dev_addrs (snd (write_val c address val)))
              \<union> set (dev_addrs (snd (write_vals c address vals n)))
              \<union> set (dev_addrs (snd (write_str c address vals n)))
              \<union> set (dev_addrs (snd (read_val replies c address garbage)))
              \<union> set (dev_addrs (fst (snd (read_vals replies c address out n))))
              \<union> set (dev_addrs (fst (snd (read_str replies c address out n)))).
           a AND 0xF0 = 0x50 \<and> 0x50 \<le> a \<and> a \<le> 0x57"
proof -
  let ?Q = "\<lambda>a :: u8. a AND 0xF0 = 0x50 \<and> 0x50 \<le> a \<and> a \<le> 0x57"
  have base: "chip_addr c AND 0xF8 = 0x50"
    by (simp only: assms begin_fields base_addr_high)
  then have q0: "?Q (chip_addr c)"
    by (rule family_address)
  have q1: "?Q (ov_addr c cur)" for cur
    by (rule family_address) (simp only: ov_addr_high base)
  have w: "\<forall>a \<in> set (dev_addrs (snd (writeN c address' vals' n'))). ?Q a" for address' vals' n'
    using q0 q1 by (rule writeN_dev_addrs)
  have r: "\<forall>a \<in> set (dev_addrs (fst (snd (readN replies c address' out' n')))). ?Q a"
    for address' out' n'
    using q0 q1 by (rule readN_dev_addrs)
  have i: "\<forall>a \<in> set (dev_addrs (snd (isConnected status c))). ?Q a"
    using q0 by (simp add: isConnected_def split: option.splits)
  show ?thesis
    unfolding write_val_def write_vals_def write_str_def read_vals_def read_str_def read_val_events
    using i w r by (simp only: ball_Un) simp
qed

theorem device_addresses_in_family_witness:
  "eeprom_64k = fst (begin_AT24CXX AT24CXX_new AT24C64 0x01 1 default_wp_pin)
   \<and> dev_addrs (snd (isConnected 0 eeprom_64k)) = [0x51]
   \<and> dev_addrs (snd (write_vals eeprom_64k 62 [1, 2, 3] 3)) = [0x51, 0x51]
   \<and> dev_addrs (fst (snd (read_str [[1, 2, 3]] eeprom_64k 62 [0, 0, 0] 3))) = [0x51, 0x51]
   \<and> (0x51 :: u8) AND 0xF0 = 0x50 \<and> (0x50 :: u8) \<le> 0x51 \<and> (0x51 :: u8) \<le> 0x57"
proof -
  have h: "eeprom_64k = fst (begin_AT24CXX AT24CXX_new AT24C64 0x01 1 default_wp_pin)"
    by (simp add: eeprom_64k_def configured_def)
  have e1: "dev_addrs (snd (isConnected 0 eeprom_64k)) = [0x51]"
    by code_simp
  have e2: "dev_addrs (snd (write_vals eeprom_64k 62 [1, 2, 3] 3)) = [0x51, 0x51]"
    by code_simp
  have e3: "dev_addrs (fst (snd (read_str [[1, 2, 3]] eeprom_64k 62 [0, 0, 0] 3))) = [0x51, 0x51]"
    by code_simp
  have "(0x51 :: u8) \<in> set (dev_addrs (snd (isConnected 0 eeprom_64k)))
              \<union> set (dev_addrs (snd (write_val eeprom_64k 62 7)))
              \<union> set (dev_addrs (snd (write_vals eeprom_64k 62 [1, 2, 3] 3)))
              \<union> set (dev_addrs (snd (write_str eeprom_64k 62 [1, 2, 3] 3)))
              \<union> set (dev_addrs (snd (read_val [[1, 2, 3]] eeprom_64k 62 0)))
              \<union> set (dev_addrs (fst (snd (read_vals [[1, 2, 3]] eeprom_64k 62 [0, 0, 0] 3))))
              \<union> set (dev_addrs (fst (snd (read_str [[1, 2, 3]] eeprom_64k 62 [0, 0, 0] 3))))"
    by (simp add: e2)
  with device_addresses_in_family [OF h]
  have "(0x51 :: u8) AND 0xF0 = 0x50 \<and> (0x50 :: u8) \<le> 0x51 \<and> (0x51 :: u8) \<le> 0x57"
    by (rule bspec)
  with h e1 e2 e3 show ?thesis
    by (intro conjI) simp_all
qed

subsection \<open>The range check\<close>

text \<open>
  C10. On an active controller, \<open>writeN\<close> and \<open>readN\<close> return false exactly when the
  sum of the 16-bit address and the 8-bit length, taken as unbounded integers, exceeds
  \<open>_chip_size\<close>: the sum does not wrap. \<open>write(0xFFFF, buf, 2)\<close> is refused on every
  chip of the catalog, the 65536-byte AT24C512 included.
\<close>

theorem range_check_exact:
  assumes "mode c \<noteq> 0"
  shows "(fst (writeN c address vals n) = Returned False
            \<longleftrightarrow> unat (chip_size c) < unat address + unat n)
         \<and> (fst (readN replies c address out n) = Returned False
            \<longleftrightarrow> unat (chip_size c) < unat address + unat n)
         \<and> (\<forall>chip \<in> set catalog.
              write_vals (configured chip sel) 0xFFFF vals 2 = (Returned False, []))"
proof -
  have w: "fst (writeN c address vals n) = Returned False
            \<longleftrightarrow> unat (chip_size c) < unat address + unat n"
    using assms by (simp add: writeN_result in_range_iff not_le)
  have r: "fst (readN replies c address out n) = Returned False
            \<longleftrightarrow> unat (chip_size c) < unat address + unat n"
    using assms by (simp add: readN_result in_range_iff not_le)
  have e: "write_vals (configured chip sel) 0xFFFF vals 2 = (Returned False, [])"
    if "chip \<in> set catalog" for chip
  proof -
    have "unat (chip_size (configured chip sel)) \<le> 65536"
      unfolding configured_def using that by (rule catalog_chip_size)
    then have "unat (chip_size (configured chip sel)) < unat (0xFFFF :: u16) + unat (2 :: u8)"
      by simp
    then show ?thesis
      unfolding write_vals_def by (rule writeN_out_of_range)
  qed
  from w r e show ?thesis
    by blast
qed

theorem range_check_exact_witness:
  "mode eeprom_512k \<noteq> 0
   \<and> unat (chip_size eeprom_512k) = 65536
   \<and> fst (writeN eeprom_512k 0xFFFF [1, 2] 2) = Returned False
   \<and> fst (readN [] eeprom_512k 0xFFFF [0, 0] 2) = Returned False
   \<and> fst (writeN eeprom_512k 0xFFFF [1] 1) \<noteq> Returned False
   \<and> fst (readN [] eeprom_512k 0xFFFF [0] 1) \<noteq> Returned False
   \<and> AT24C512 \<in> set catalog
   \<and> write_vals (configured AT24C512 0x02) 0xFFFF [1, 2] 2 = (Returned False, [])"
proof -
  have h: "mode eeprom_512k \<noteq> 0"
    by code_simp
  have s: "unat (chip_size eeprom_512k) = 65536"
    by (simp add: eeprom_512k_def configured_def begin_fields AT24C512_def)
  have m: "AT24C512 \<in> set catalog"
    by (simp add: catalog_def)
  have over: "unat (chip_size eeprom_512k) < unat (0xFFFF :: u16) + unat (2 :: u8)"
    by (simp add: s)
  have fits: "\<not> unat (chip_size eeprom_512k) < unat (0xFFFF :: u16) + unat (1 :: u8)"
    by (simp add: s)
  note t1 = range_check_exact [OF h, THEN conjunct1]
  note t2 = range_check_exact [OF h, THEN conjunct2, THEN conjunct1]
  note t3 = range_check_exact [OF h, THEN conjunct2, THEN conjunct2]
  have a: "fst (writeN eeprom_512k 0xFFFF [1, 2] 2) = Returned False"
    using over by (simp only: t1)
  have b: "fst (readN [] eeprom_512k 0xFFFF [0, 0] 2) = Returned False"
    using over by (simp only: t2)
  have c: "fst (writeN eeprom_512k 0xFFFF [1] 1) \<noteq> Returned False"
    using fits by (simp only: t1 not_False_eq_True)
  have d: "fst (readN [] eeprom_512k 0xFFFF [0] 1) \<noteq> Returned False"
    using fits by (simp only: t2 not_False_eq_True)
  have e: "write_vals (configured AT24C512 0x02) 0xFFFF [1, 2] 2 = (Returned False, [])"
    using t3 m by (rule bspec)
  from h s a b c d m e show ?thesis
    by (intro conjI)
qed

end
